theory Spec2Isabelle
  imports Main "HOL-Library.Sublist" "HOL-Library.List_Lexorder" "HOL-Library.Char_ord"
    "HOL-Library.Product_Lexorder" "HOL-Library.Multiset"
begin

section \<open>The HTML extractor: \<open>matchTag\<close> and \<open>parse\<close>\<close>

text \<open>
  The tokenizer of \<open>golang.org/x/net/html\<close> is a library: the body of a response is
  modelled as the sequence of tokens that \<open>tokens.Next()\<close> and \<open>tokens.Token()\<close> return
  for it. The end of the input is an \<open>ErrorToken\<close> (with \<open>io.EOF\<close>), so a token list
  that runs out ends the loop as an \<open>ErrorToken\<close> does.
\<close>

datatype TokenType =
  ErrorToken | TextToken | StartTagToken | EndTagToken | SelfClosingTagToken
  | CommentToken | DoctypeToken

record Attribute =
  Key :: string
  Val :: string

record Token =
  Type :: TokenType
  Data :: string
  Attr :: "Attribute list"

text \<open>The inner loop of \<open>matchTag\<close>: the value of the first attribute with the given key;
  \<open>val\<close> keeps its zero value, the empty string, when no attribute has that key.\<close>

fun firstAttr :: "string \<Rightarrow> Attribute list \<Rightarrow> string" where
  "firstAttr attrName [] = ''''"
| "firstAttr attrName (a # as) = (if Key a = attrName then Val a else firstAttr attrName as)"

definition matchTag :: "Token \<Rightarrow> string \<Rightarrow> string \<Rightarrow> bool \<times> string" where
  "matchTag tok tag attrName =
     (if Data tok = tag then (True, firstAttr attrName (Attr tok)) else (False, ''''))"

text \<open>The loop of \<open>parse\<close>, with the two slices it appends to.\<close>

fun parse_loop :: "Token list \<Rightarrow> string list \<Rightarrow> string list \<Rightarrow> string list \<times> string list" where
  "parse_loop [] imgSrcs hrefs = (imgSrcs, hrefs)"
| "parse_loop (tok # tokens) imgSrcs hrefs =
     (if Type tok = ErrorToken then (imgSrcs, hrefs)
      else if Type tok = StartTagToken \<or> Type tok = SelfClosingTagToken then
        (let (isImg, src) = matchTag tok ''img'' ''src'';
             imgSrcs' = (if isImg then imgSrcs @ [src] else imgSrcs);
             (isAnchor, href) = matchTag tok ''a'' ''href'';
             hrefs' = (if isAnchor then hrefs @ [href] else hrefs)
         in parse_loop tokens imgSrcs' hrefs')
      else parse_loop tokens imgSrcs hrefs)"

definition parse :: "Token list \<Rightarrow> string list \<times> string list" where
  "parse r = parse_loop r [] []"

section \<open>URL resolution: \<open>resolveURLs\<close> and \<open>toSanitizedString\<close>\<close>

text \<open>
  \<open>net/url\<close> and \<open>purell\<close> are third-party packages. The functions of this repository
  take them as a parameter: a record of the four operations \<open>resolveURLs\<close> and
  \<open>toSanitizedString\<close> call. \<open>url_Parse\<close> returns \<open>None\<close> where \<open>neturl.Parse\<close> returns
  an error.
\<close>

datatype NormalizationFlag =
  FlagLowercaseScheme | FlagLowercaseHost | FlagUppercaseEscapes
  | FlagDecodeUnnecessaryEscapes | FlagEncodeNecessaryEscapes | FlagRemoveDefaultPort
  | FlagRemoveEmptyQuerySeparator | FlagRemoveTrailingSlash | FlagRemoveDotSegments
  | FlagRemoveFragment | FlagRemoveDuplicateSlashes | FlagSortQuery

record 'u netlib =
  url_Parse :: "string \<Rightarrow> 'u option"
  url_ResolveReference :: "'u \<Rightarrow> 'u \<Rightarrow> 'u"
  url_Hostname :: "'u \<Rightarrow> string"
  purell_NormalizeURL :: "'u \<Rightarrow> NormalizationFlag list \<Rightarrow> string"

text \<open>The flag sets of purell that \<open>toSanitizedString\<close> names; a bitwise or of flags is
  the list of the flags set.\<close>

definition FlagsSafe :: "NormalizationFlag list" where
  "FlagsSafe = [FlagLowercaseHost, FlagLowercaseScheme, FlagUppercaseEscapes,
     FlagDecodeUnnecessaryEscapes, FlagEncodeNecessaryEscapes, FlagRemoveDefaultPort,
     FlagRemoveEmptyQuerySeparator]"

definition FlagsUsuallySafeGreedy :: "NormalizationFlag list" where
  "FlagsUsuallySafeGreedy = FlagsSafe @ [FlagRemoveTrailingSlash, FlagRemoveDotSegments]"

definition toSanitizedString :: "'u netlib \<Rightarrow> 'u \<Rightarrow> string" where
  "toSanitizedString lib u =
     purell_NormalizeURL lib u
       (FlagsUsuallySafeGreedy @ [FlagRemoveFragment, FlagRemoveDuplicateSlashes, FlagSortQuery])"

text \<open>The loop of \<open>resolveURLs\<close> over \<open>urls\<close>, appending to \<open>absUrls\<close>; each \<open>continue\<close>
  is a branch that leaves \<open>absUrls\<close> as it is.\<close>

fun resolve_loop :: "'u netlib \<Rightarrow> 'u \<Rightarrow> bool \<Rightarrow> string list \<Rightarrow> string list \<Rightarrow> string list" where
  "resolve_loop lib baseURL skipExternal [] absUrls = absUrls"
| "resolve_loop lib baseURL skipExternal (url # urls) absUrls =
     (case url_Parse lib url of
        None \<Rightarrow> resolve_loop lib baseURL skipExternal urls absUrls
      | Some parsed \<Rightarrow>
          (let absolute = url_ResolveReference lib baseURL parsed in
           if skipExternal \<and> url_Hostname lib absolute \<noteq> url_Hostname lib baseURL
           then resolve_loop lib baseURL skipExternal urls absUrls
           else resolve_loop lib baseURL skipExternal urls
                  (absUrls @ [toSanitizedString lib absolute])))"

definition resolveURLs :: "'u netlib \<Rightarrow> string \<Rightarrow> string list \<Rightarrow> bool \<Rightarrow> string list" where
  "resolveURLs lib base urls skipExternal =
     (case url_Parse lib base of
        None \<Rightarrow> []
      | Some baseURL \<Rightarrow> resolve_loop lib baseURL skipExternal urls [])"

section \<open>Fetching a page: \<open>scrape\<close>\<close>

text \<open>
  \<open>http.Get\<close> either fails or returns a response, of which \<open>scrape\<close> reads the
  \<open>content-type\<close> header and the body. \<open>log.Fatal\<close> prints and calls \<open>os.Exit(1)\<close>: the
  process ends, and \<open>scrape\<close> returns nothing to its caller.
\<close>

datatype http_result = GetError | Response string "Token list"

datatype log_line =
  LogError | LogFatal | LogCrawling string | LogSkipping string string

datatype process_exit = Exit1

type_synonym scrape_result = "log_line list \<times> (process_exit + string list \<times> string list)"

definition scrape :: "'u netlib \<Rightarrow> (string \<Rightarrow> http_result) \<Rightarrow> string \<Rightarrow> scrape_result" where
  "scrape lib http_Get url =
     (case http_Get url of
        GetError \<Rightarrow> ([LogFatal], Inl Exit1)
      | Response ct body \<Rightarrow>
          if \<not> prefix ''text/html'' ct then ([LogSkipping url ct], Inr ([], []))
          else (let (imgSrcs, hrefs) = parse body;
                    imgSrcs' = resolveURLs lib url imgSrcs False;
                    hrefs' = resolveURLs lib url hrefs True
                in ([], Inr (hrefs', imgSrcs'))))"

section \<open>A model of the URL packages\<close>

text \<open>
  Modelled from the spec: the packages \<open>net/url\<close> and \<open>purell\<close>, which are not part of
  the repository. The spec (4.2) asks of them: parse a link as a URI or fail, resolve it
  against the base to an absolute URL, give its hostname, and canonicalize it (strip the
  fragment, collapse duplicate path separators, sort the query parameters, normalize the
  percent-encoding). The model follows RFC 3986 for the syntax and the reference
  resolution, and applies the normalizations of the flags \<open>toSanitizedString\<close> sets in
  purell's order. The field \<open>Path\<close> holds the path with its percent-escapes decoded, and
  the canonical string is written with the path escaped again, so that an escape of a
  character that needs none is decoded, any other escape has upper-case digits, and a
  character that may not stand in a path is escaped. The model leaves out user
  information and the validation of escapes and of host names: a percent sign that
  starts no escape is taken as it is.
\<close>

record URL =
  Scheme :: string
  Opaque :: string
  Host :: string
  Path :: string
  RawQuery :: string
  Fragment :: string

definition emptyURL :: URL where
  "emptyURL = \<lparr>Scheme = '''', Opaque = '''', Host = '''', Path = '''', RawQuery = '''',
     Fragment = ''''\<rparr>"

text \<open>\<open>cut c s\<close>: the text before the first \<open>c\<close>, and the text after it when there is one.\<close>

fun cut :: "char \<Rightarrow> string \<Rightarrow> string \<times> string option" where
  "cut c [] = ([], None)"
| "cut c (x # xs) =
     (if x = c then ([], Some xs)
      else (case cut c xs of (before, after) \<Rightarrow> (x # before, after)))"

fun splitOn :: "char \<Rightarrow> string \<Rightarrow> string list" where
  "splitOn c [] = [[]]"
| "splitOn c (x # xs) =
     (if x = c then [] # splitOn c xs
      else (case splitOn c xs of [] \<Rightarrow> [[x]] | s # ss \<Rightarrow> (x # s) # ss))"

fun joinWith :: "char \<Rightarrow> string list \<Rightarrow> string" where
  "joinWith c [] = []"
| "joinWith c [s] = s"
| "joinWith c (s # t # ss) = s @ c # joinWith c (t # ss)"

definition between :: "char \<Rightarrow> char \<Rightarrow> char \<Rightarrow> bool" where
  "between lo hi c = (lo \<le> c \<and> c \<le> hi)"

definition isAlpha :: "char \<Rightarrow> bool" where
  "isAlpha c = (between (CHR ''a'') (CHR ''z'') c \<or> between (CHR ''A'') (CHR ''Z'') c)"

definition isSchemeChar :: "char \<Rightarrow> bool" where
  "isSchemeChar c = (between (CHR ''0'') (CHR ''9'') c \<or> c \<in> set ''+-.'')"

definition isCTL :: "char \<Rightarrow> bool" where
  "isCTL c = (c < CHR '' '' \<or> c = CHR 0x7F)"

definition isUnreserved :: "char \<Rightarrow> bool" where
  "isUnreserved c = (isAlpha c \<or> between (CHR ''0'') (CHR ''9'') c \<or> c \<in> set ''-._~'')"

text \<open>Percent-escapes: \<open>%\<close> and two hexadecimal digits stand for one character.
  \<open>unescape\<close> decodes them; in a query component (\<open>inQuery\<close>) a \<open>+\<close> is a space.\<close>

definition unhex :: "char \<Rightarrow> nat option" where
  "unhex c =
     (if between (CHR ''0'') (CHR ''9'') c then Some (of_char c - 48)
      else if between (CHR ''a'') (CHR ''f'') c then Some (of_char c - 87)
      else if between (CHR ''A'') (CHR ''F'') c then Some (of_char c - 55)
      else None)"

fun unescape :: "bool \<Rightarrow> string \<Rightarrow> string" where
  "unescape inQuery (c # a # b # cs) =
     (if c = CHR ''%'' then
        (case unhex a of
           None \<Rightarrow> c # unescape inQuery (a # b # cs)
         | Some h \<Rightarrow>
             (case unhex b of
                None \<Rightarrow> c # unescape inQuery (a # b # cs)
              | Some l \<Rightarrow> char_of (16 * h + l) # unescape inQuery cs))
      else (if inQuery \<and> c = CHR ''+'' then CHR '' '' else c) # unescape inQuery (a # b # cs))"
| "unescape inQuery (c # cs) = (if inQuery \<and> c = CHR ''+'' then CHR '' '' else c) # unescape inQuery cs"
| "unescape inQuery [] = []"

definition escapeByte :: "char \<Rightarrow> string" where
  "escapeByte c =
     [CHR ''%'', ''0123456789ABCDEF'' ! (of_char c div 16), ''0123456789ABCDEF'' ! (of_char c mod 16)]"

text \<open>In a path the unreserved characters and the reserved ones other than \<open>?\<close> and \<open>#\<close>
  are written as they are (\<open>0x27\<close> is the single quote). In a query component the
  unreserved characters, \<open>/\<close> and \<open>?\<close> are, and a space is written \<open>+\<close>. Any other
  character is written as its escape, with upper-case digits.\<close>

definition escapePath :: "string \<Rightarrow> string" where
  "escapePath s =
     concat (map (\<lambda>c. if isUnreserved c \<or> c \<in> set ''!$&()*+,;=:@/[]'' \<or> c = CHR 0x27 then [c]
                         else escapeByte c) s)"

definition queryEscape :: "string \<Rightarrow> string" where
  "queryEscape s =
     concat (map (\<lambda>c. if isUnreserved c \<or> c \<in> set ''/?'' then [c] else if c = CHR '' '' then ''+''
                         else escapeByte c) s)"

definition toLower :: "string \<Rightarrow> string" where
  "toLower s =
     map (\<lambda>c. case map_of (zip ''ABCDEFGHIJKLMNOPQRSTUVWXYZ'' ''abcdefghijklmnopqrstuvwxyz'') c of
                 None \<Rightarrow> c | Some l \<Rightarrow> l) s"

text \<open>The scheme of a URL: the letters, digits and \<open>+-.\<close> before the first colon. \<open>None\<close>
  is the error of a URL that starts with a colon; an empty scheme is a relative
  reference.\<close>

fun getScheme :: "string \<Rightarrow> string \<Rightarrow> string \<Rightarrow> (string \<times> string) option" where
  "getScheme rawURL seen [] = Some ('''', rawURL)"
| "getScheme rawURL seen (c # cs) =
     (if isAlpha c then getScheme rawURL (seen @ [c]) cs
      else if isSchemeChar c then
        (if seen = [] then Some ('''', rawURL) else getScheme rawURL (seen @ [c]) cs)
      else if c = CHR '':'' then (if seen = [] then None else Some (seen, cs))
      else Some ('''', rawURL))"

definition parseAuthority :: "string \<Rightarrow> string" where
  "parseAuthority authority = last (splitOn CHR ''@'' authority)"

definition Parse :: "string \<Rightarrow> URL option" where
  "Parse rawURL =
     (case cut CHR ''#'' rawURL of (u, frag) \<Rightarrow>
      if list_ex isCTL u then None
      else (case getScheme u [] u of
        None \<Rightarrow> None
      | Some (scheme, rest0) \<Rightarrow>
          (case cut CHR ''?'' rest0 of (rest, query) \<Rightarrow>
           let url = emptyURL\<lparr>Scheme := toLower scheme,
                               RawQuery := (case query of None \<Rightarrow> '''' | Some q \<Rightarrow> q),
                               Fragment := (case frag of None \<Rightarrow> '''' | Some f \<Rightarrow> f)\<rparr>
           in if \<not> prefix ''/'' rest \<and> scheme \<noteq> '''' then Some (url\<lparr>Opaque := rest\<rparr>)
              else if \<not> prefix ''/'' rest \<and> CHR '':'' \<in> set (fst (cut CHR ''/'' rest)) then None
              else if prefix ''//'' rest \<and> (scheme \<noteq> '''' \<or> \<not> prefix ''///'' rest) then
                (case cut CHR ''/'' (drop 2 rest) of
                   (authority, None) \<Rightarrow> Some (url\<lparr>Host := parseAuthority authority\<rparr>)
                 | (authority, Some p) \<Rightarrow>
                     Some (url\<lparr>Host := parseAuthority authority,
                               Path := unescape False (CHR ''/'' # p)\<rparr>))
              else Some (url\<lparr>Path := unescape False rest\<rparr>))))"

definition Hostname :: "URL \<Rightarrow> string" where
  "Hostname u = takeWhile (\<lambda>c. c \<noteq> CHR '':'') (Host u)"

text \<open>Dot segments: the path is cut at its slashes, \<open>..\<close> drops the segment before it and
  \<open>.\<close> is dropped. A path that ended in a dot segment keeps its final slash, and the path
  of a URL with a host starts with a slash.\<close>

fun dotFree :: "string list \<Rightarrow> string list \<Rightarrow> string list" where
  "dotFree [] stack = stack"
| "dotFree (s # sections) stack =
     (if s = ''..'' then dotFree sections (butlast stack)
      else if s = ''.'' then dotFree sections stack
      else dotFree sections (stack @ [s]))"

definition removeDotSegmentsPath :: "bool \<Rightarrow> string \<Rightarrow> string" where
  "removeDotSegmentsPath hasHost path =
     (if path = '''' then ''''
      else let sections = splitOn CHR ''/'' path;
               lastIsDot = (last sections = ''.'' \<or> last sections = ''..'');
               p = joinWith CHR ''/'' (dotFree sections []);
               p' = (if hasHost \<and> \<not> prefix ''/'' p then CHR ''/'' # p else p)
           in if lastIsDot \<and> \<not> suffix ''/'' p' then p' @ ''/'' else p')"

text \<open>RFC 3986, 5.2.3: the reference's path replaces the last segment of the base's.\<close>

definition mergePaths :: "URL \<Rightarrow> string \<Rightarrow> string" where
  "mergePaths base ref =
     (if Host base \<noteq> '''' \<and> Path base = '''' then CHR ''/'' # ref
      else joinWith CHR ''/'' (butlast (splitOn CHR ''/'' (Path base)) @ [ref]))"

text \<open>RFC 3986, 5.2.2. A reference with a scheme or a host keeps its own authority and
  path; a reference with an empty path is the base with the reference's query (the
  base's when it has none); any other is resolved against the path of the base.\<close>

definition ResolveReference :: "URL \<Rightarrow> URL \<Rightarrow> URL" where
  "ResolveReference u ref =
     (if Scheme ref \<noteq> '''' \<or> Host ref \<noteq> '''' then
        ref\<lparr>Scheme := (if Scheme ref = '''' then Scheme u else Scheme ref),
            Path := removeDotSegmentsPath (Host ref \<noteq> '''') (Path ref)\<rparr>
      else if Opaque ref \<noteq> '''' then ref\<lparr>Scheme := Scheme u, Host := '''', Path := ''''\<rparr>
      else if Path ref = '''' then
        u\<lparr>RawQuery := (if RawQuery ref = '''' then RawQuery u else RawQuery ref),
          Fragment := (if RawQuery ref = '''' \<and> Fragment ref = '''' then Fragment u
                       else Fragment ref)\<rparr>
      else
        u\<lparr>Opaque := '''',
          Path := removeDotSegmentsPath (Host u \<noteq> '''')
                    (if prefix ''/'' (Path ref) then Path ref else mergePaths u (Path ref)),
          RawQuery := RawQuery ref, Fragment := Fragment ref\<rparr>)"

text \<open>The normalizations, one function per flag.\<close>

definition lowercaseScheme :: "URL \<Rightarrow> URL" where
  "lowercaseScheme u = u\<lparr>Scheme := toLower (Scheme u)\<rparr>"

definition lowercaseHost :: "URL \<Rightarrow> URL" where
  "lowercaseHost u = u\<lparr>Host := toLower (Host u)\<rparr>"

definition removeDefaultPort :: "URL \<Rightarrow> URL" where
  "removeDefaultPort u =
     (if toLower (Scheme u) = ''http'' \<and> suffix '':80'' (Host u) then
        u\<lparr>Host := take (length (Host u) - 3) (Host u)\<rparr>
      else if toLower (Scheme u) = ''https'' \<and> suffix '':443'' (Host u) then
        u\<lparr>Host := take (length (Host u) - 4) (Host u)\<rparr>
      else u)"

definition removeDotSegments :: "URL \<Rightarrow> URL" where
  "removeDotSegments u = u\<lparr>Path := removeDotSegmentsPath (Host u \<noteq> '''') (Path u)\<rparr>"

definition removeFragment :: "URL \<Rightarrow> URL" where
  "removeFragment u = u\<lparr>Fragment := ''''\<rparr>"

fun dedupSlashes :: "string \<Rightarrow> string" where
  "dedupSlashes (a # b # cs) =
     (if a = CHR ''/'' \<and> b = CHR ''/'' then dedupSlashes (b # cs) else a # dedupSlashes (b # cs))"
| "dedupSlashes cs = cs"

definition removeDuplicateSlashes :: "URL \<Rightarrow> URL" where
  "removeDuplicateSlashes u = u\<lparr>Path := dedupSlashes (Path u)\<rparr>"

text \<open>The query is cut at \<open>&\<close> into parameters, each cut at its first \<open>=\<close> into a key and
  a value, both decoded. The parameters are written back ordered by key, and under one
  key by value; the key is written as decoded and the value escaped. A query with no
  parameter stays as it is.\<close>

definition queryParams :: "string \<Rightarrow> (string \<times> string) list" where
  "queryParams q =
     map (\<lambda>p. case cut CHR ''='' p of
                (k, v) \<Rightarrow> (unescape True k, unescape True (case v of None \<Rightarrow> '''' | Some w \<Rightarrow> w)))
       (filter (\<lambda>p. p \<noteq> '''') (splitOn CHR ''&'' q))"

definition writeParam :: "string \<times> string \<Rightarrow> string" where
  "writeParam kv = fst kv @ ''='' @ queryEscape (snd kv)"

definition sortQuery :: "URL \<Rightarrow> URL" where
  "sortQuery u =
     (let q = queryParams (RawQuery u) in
      if q = [] then u
      else u\<lparr>RawQuery := joinWith CHR ''&'' (map writeParam (sort q))\<rparr>)"

definition removeTrailingSlash :: "URL \<Rightarrow> URL" where
  "removeTrailingSlash u =
     (if Path u \<noteq> '''' then
        (if suffix ''/'' (Path u) then u\<lparr>Path := butlast (Path u)\<rparr> else u)
      else if suffix ''/'' (Host u) then u\<lparr>Host := butlast (Host u)\<rparr> else u)"

text \<open>purell applies the flags that are set in this fixed order. The three escape
  flags have no function of their own: the escapes are decoded when the URL is parsed,
  and written again by \<open>URL_String\<close>.\<close>

definition flagsOrder :: "(NormalizationFlag \<times> (URL \<Rightarrow> URL)) list" where
  "flagsOrder =
     [(FlagLowercaseScheme, lowercaseScheme), (FlagLowercaseHost, lowercaseHost),
      (FlagRemoveDefaultPort, removeDefaultPort), (FlagRemoveDotSegments, removeDotSegments),
      (FlagRemoveFragment, removeFragment),
      (FlagRemoveDuplicateSlashes, removeDuplicateSlashes), (FlagSortQuery, sortQuery),
      (FlagRemoveTrailingSlash, removeTrailingSlash)]"

definition URL_String :: "URL \<Rightarrow> string" where
  "URL_String u =
     (if Scheme u \<noteq> '''' then Scheme u @ '':'' else '''') @
     (if Opaque u \<noteq> '''' then Opaque u
      else (if (Scheme u \<noteq> '''' \<or> Host u \<noteq> '''') \<and> (Host u \<noteq> '''' \<or> Path u \<noteq> '''')
            then ''//'' @ Host u else '''') @
           (if Path u \<noteq> '''' \<and> \<not> prefix ''/'' (Path u) \<and> Host u \<noteq> '''' then ''/'' else '''') @
           escapePath (Path u)) @
     (if RawQuery u \<noteq> '''' then CHR ''?'' # RawQuery u else '''') @
     (if Fragment u \<noteq> '''' then CHR ''#'' # Fragment u else '''')"

definition NormalizeURL :: "URL \<Rightarrow> NormalizationFlag list \<Rightarrow> string" where
  "NormalizeURL u f =
     URL_String (fold (\<lambda>(k, g) v. if k \<in> set f then g v else v) flagsOrder u)"

definition neturl :: "URL netlib" where
  "neturl = \<lparr>url_Parse = Parse, url_ResolveReference = ResolveReference,
     url_Hostname = Hostname, purell_NormalizeURL = NormalizeURL\<rparr>"

section \<open>The shared store\<close>

text \<open>
  Modelled from the spec: the Redis server, which is not part of the repository. The
  spec (4.1, 6) asks of it: a set-add that reports whether the member is new, a removal
  of an arbitrary member that signals the empty set apart from an error, a cardinality,
  and an atomic counter. The four keys of \<open>New\<close> are the four fields; a set is the list
  of its members, without repetition. Each command is one atomic step. \<open>fault\<close> is a
  transport failure: the command returns an error and the store is unchanged. \<open>k\<close> picks
  the member \<open>SPOP\<close> removes, so that any member can be the one.
\<close>

record store =
  activeWorkers :: int
  crawlQ :: "string list"
  visitedHREFs :: "string list"
  imageSrcs :: "string list"

datatype redis_error = ErrNil | ErrTransport

definition emptyStore :: store where
  "emptyStore = \<lparr>activeWorkers = 0, crawlQ = [], visitedHREFs = [], imageSrcs = []\<rparr>"

definition sadd :: "string \<Rightarrow> string list \<Rightarrow> string list \<times> int" where
  "sadd member s = (if member \<in> set s then (s, 0) else (s @ [member], 1))"

definition INCR :: "bool \<Rightarrow> store \<Rightarrow> store \<times> (redis_error + int)" where
  "INCR fault st =
     (if fault then (st, Inl ErrTransport)
      else (st\<lparr>activeWorkers := activeWorkers st + 1\<rparr>, Inr (activeWorkers st + 1)))"

definition DECR :: "bool \<Rightarrow> store \<Rightarrow> store \<times> (redis_error + int)" where
  "DECR fault st =
     (if fault then (st, Inl ErrTransport)
      else (st\<lparr>activeWorkers := activeWorkers st - 1\<rparr>, Inr (activeWorkers st - 1)))"

definition GET :: "bool \<Rightarrow> store \<Rightarrow> redis_error + int" where
  "GET fault st = (if fault then Inl ErrTransport else Inr (activeWorkers st))"

definition SCARD_crawlQ :: "bool \<Rightarrow> store \<Rightarrow> redis_error + int" where
  "SCARD_crawlQ fault st = (if fault then Inl ErrTransport else Inr (int (length (crawlQ st))))"

definition SPOP_crawlQ :: "bool \<Rightarrow> nat \<Rightarrow> store \<Rightarrow> store \<times> (redis_error + string)" where
  "SPOP_crawlQ fault k st =
     (if fault then (st, Inl ErrTransport)
      else if crawlQ st = [] then (st, Inl ErrNil)
      else (let url = crawlQ st ! (k mod length (crawlQ st))
            in (st\<lparr>crawlQ := remove1 url (crawlQ st)\<rparr>, Inr url)))"

definition SADD_crawlQ :: "bool \<Rightarrow> string \<Rightarrow> store \<Rightarrow> store \<times> (redis_error + int)" where
  "SADD_crawlQ fault url st =
     (if fault then (st, Inl ErrTransport)
      else (st\<lparr>crawlQ := fst (sadd url (crawlQ st))\<rparr>, Inr (snd (sadd url (crawlQ st)))))"

definition SADD_visitedHREFs :: "bool \<Rightarrow> string \<Rightarrow> store \<Rightarrow> store \<times> (redis_error + int)" where
  "SADD_visitedHREFs fault url st =
     (if fault then (st, Inl ErrTransport)
      else (st\<lparr>visitedHREFs := fst (sadd url (visitedHREFs st))\<rparr>,
            Inr (snd (sadd url (visitedHREFs st)))))"

definition SADD_imageSrcs :: "bool \<Rightarrow> string \<Rightarrow> store \<Rightarrow> store \<times> (redis_error + int)" where
  "SADD_imageSrcs fault url st =
     (if fault then (st, Inl ErrTransport)
      else (st\<lparr>imageSrcs := fst (sadd url (imageSrcs st))\<rparr>,
            Inr (snd (sadd url (imageSrcs st)))))"

text \<open>\<open>redis.Int\<close> where the caller drops the error: the value is 0 on an error.\<close>

definition redis_Int :: "redis_error + int \<Rightarrow> int" where
  "redis_Int reply = (case reply of Inl err \<Rightarrow> 0 | Inr n \<Rightarrow> n)"

section \<open>The worker: \<open>Run\<close> and \<open>crawl\<close>\<close>

text \<open>
  Workers run concurrently and meet only in the store, so \<open>Run\<close> is a transition
  system: a worker is at a program point, and one step runs it to its next store command,
  \<open>scrape\<close> or return. The program points, with the lines of the source:
  \<^item> \<open>AtINCR\<close>: the head of the outer loop of \<open>Run\<close>, before \<open>INCR\<close> (78);
  \<^item> \<open>AtSPOP\<close>: the head of the loop of \<open>crawl\<close>, before \<open>SPOP\<close> (118);
  \<^item> \<open>AtSADDVisited url\<close>: before the \<open>SADD\<close> to the visited set (130);
  \<^item> \<open>AtScrape url\<close>: before \<open>scrape(url)\<close> (143);
  \<^item> \<open>AtSend imgSrcs hrefs\<close>: in the two \<open>Send\<close> loops, with what is left to send
    (146-152); the commands reach the server in this order;
  \<^item> \<open>AtDECR\<close>: \<open>crawl\<close> has returned, before \<open>DECR\<close> (87);
  \<^item> \<open>AtCheck active\<close>: the head of the inner loop of \<open>Run\<close>, with the local \<open>active\<close> (96);
  \<^item> \<open>AtSleep\<close>: before \<open>time.Sleep\<close> (101);
  \<^item> \<open>AtSCARD\<close>: before \<open>SCARD\<close> (104); \<open>AtGET\<close>: before \<open>GET\<close> (110);
  \<^item> \<open>Terminated\<close>: \<open>Run\<close> has returned at line 97;
  \<^item> \<open>Failed\<close>: \<open>Run\<close> has returned at line 81 or 90, after a store error;
  \<^item> \<open>Fatal\<close>: \<open>log.Fatal\<close> has ended the process (160).
\<close>

datatype pc =
  AtINCR | AtSPOP | AtSADDVisited string | AtScrape string
  | AtSend "string list" "string list" | AtDECR | AtCheck int | AtSleep | AtSCARD | AtGET
  | Terminated | Failed | Fatal

datatype effect = Log log_line | Sleep nat

fun wstep :: "(string \<Rightarrow> scrape_result) \<Rightarrow> nat \<times> bool \<Rightarrow> store \<Rightarrow> pc \<Rightarrow> store \<times> pc \<times> effect list" where
  "wstep scr (k, fault) st AtINCR =
     (case INCR fault st of
        (st', Inl err) \<Rightarrow> (st', Failed, [Log LogError])
      | (st', Inr n) \<Rightarrow> (st', AtSPOP, []))"
| "wstep scr (k, fault) st AtSPOP =
     (case SPOP_crawlQ fault k st of
        (st', Inl ErrNil) \<Rightarrow> (st', AtDECR, [])
      | (st', Inl ErrTransport) \<Rightarrow> (st', AtSPOP, [Log LogError])
      | (st', Inr url) \<Rightarrow> (st', AtSADDVisited url, []))"
| "wstep scr (k, fault) st (AtSADDVisited url) =
     (case SADD_visitedHREFs fault url st of
        (st', Inl err) \<Rightarrow> (st', AtSPOP, [Log LogError])
      | (st', Inr inserted) \<Rightarrow>
          if inserted = 0 then (st', AtSPOP, [])
          else (st', AtScrape url, [Log (LogCrawling url)]))"
| "wstep scr (k, fault) st (AtScrape url) =
     (case scr url of
        (logged, Inl Exit1) \<Rightarrow> (st, Fatal, map Log logged)
      | (logged, Inr (hrefs, imgSrcs)) \<Rightarrow> (st, AtSend imgSrcs hrefs, map Log logged))"
| "wstep scr (k, fault) st (AtSend (url # imgSrcs) hrefs) =
     (fst (SADD_imageSrcs fault url st), AtSend imgSrcs hrefs, [])"
| "wstep scr (k, fault) st (AtSend [] (url # hrefs)) =
     (fst (SADD_crawlQ fault url st), AtSend [] hrefs, [])"
| "wstep scr (k, fault) st (AtSend [] []) = (st, AtSPOP, [])"
| "wstep scr (k, fault) st AtDECR =
     (case DECR fault st of
        (st', Inl err) \<Rightarrow> (st', Failed, [Log LogError])
      | (st', Inr active) \<Rightarrow> (st', AtCheck active, []))"
| "wstep scr (k, fault) st (AtCheck active) =
     (if active = 0 then (st, Terminated, []) else (st, AtSleep, []))"
| "wstep scr (k, fault) st AtSleep = (st, AtSCARD, [Sleep 1])"
| "wstep scr (k, fault) st AtSCARD =
     (let qLen = redis_Int (SCARD_crawlQ fault st)
      in if qLen > 0 then (st, AtINCR, []) else (st, AtGET, []))"
| "wstep scr (k, fault) st AtGET = (st, AtCheck (redis_Int (GET fault st)), [])"
| "wstep scr (k, fault) st Terminated = (st, Terminated, [])"
| "wstep scr (k, fault) st Failed = (st, Failed, [])"
| "wstep scr (k, fault) st Fatal = (st, Fatal, [])"

section \<open>The pool of workers: \<open>Seed\<close> and \<open>RunN\<close>\<close>

text \<open>
  A process is the store it talks to, the program point of each of its workers and what
  it has printed and slept so far. A schedule names, for each step, the worker that
  moves, the member its \<open>SPOP\<close> would remove, and whether its store command fails. Once
  \<open>log.Fatal\<close> has run there is no process: nothing moves.
\<close>

record process =
  shared :: store
  workers :: "pc list"
  effects :: "effect list"

definition halted :: "process \<Rightarrow> bool" where
  "halted s = (Fatal \<in> set (workers s))"

definition gstep :: "(string \<Rightarrow> scrape_result) \<Rightarrow> nat \<times> nat \<times> bool \<Rightarrow> process \<Rightarrow> process" where
  "gstep scr ev s =
     (case ev of (i, env) \<Rightarrow>
      if i < length (workers s) \<and> \<not> halted s then
        (case wstep scr env (shared s) (workers s ! i) of
           (st', p', out) \<Rightarrow>
             \<lparr>shared = st', workers = (workers s)[i := p'], effects = effects s @ out\<rparr>)
      else s)"

fun run :: "(string \<Rightarrow> scrape_result) \<Rightarrow> (nat \<Rightarrow> nat \<times> nat \<times> bool) \<Rightarrow> process \<Rightarrow> nat \<Rightarrow> process" where
  "run scr sched s 0 = s"
| "run scr sched s (Suc t) = gstep scr (sched t) (run scr sched s t)"

text \<open>\<open>Seed\<close> drops the reply of its \<open>SADD\<close>.\<close>

definition Seed :: "bool \<Rightarrow> string \<Rightarrow> store \<Rightarrow> store" where
  "Seed fault url st = fst (SADD_crawlQ fault url st)"

text \<open>\<open>RunN n\<close> starts \<open>n\<close> workers, each at the head of \<open>Run\<close>, and waits for all of them:
  \<open>wg.Wait()\<close> returns when every \<open>Run\<close> has returned. (A negative \<open>n\<close> panics in
  \<open>wg.Add\<close>; \<open>n\<close> is a natural number here.)\<close>

definition RunN :: "nat \<Rightarrow> store \<Rightarrow> process" where
  "RunN n st = \<lparr>shared = st, workers = replicate n AtINCR, effects = []\<rparr>"

definition returned :: "pc \<Rightarrow> bool" where
  "returned p = (p = Terminated \<or> p = Failed)"

definition RunN_returns :: "process \<Rightarrow> bool" where
  "RunN_returns s = list_all returned (workers s)"

text \<open>The pages reachable from the seed by the links \<open>scrape\<close> returns.\<close>

inductive reachable :: "(string \<Rightarrow> scrape_result) \<Rightarrow> string \<Rightarrow> string \<Rightarrow> bool"
  for scr :: "string \<Rightarrow> scrape_result" and seed :: string where
  reachable_seed: "reachable scr seed seed"
| reachable_link: "reachable scr seed u \<Longrightarrow> snd (scr u) = Inr (hrefs, imgSrcs) \<Longrightarrow>
     v \<in> set hrefs \<Longrightarrow> reachable scr seed v"

text \<open>A worker that runs alone: its steps one after the other, with nothing between
  them.\<close>

fun wsteps :: "(string \<Rightarrow> scrape_result) \<Rightarrow> (nat \<times> bool) list \<Rightarrow> store \<Rightarrow> pc \<Rightarrow> store \<times> pc \<times> effect list" where
  "wsteps scr [] st p = (st, p, [])"
| "wsteps scr (env # envs) st p =
     (case wstep scr env st p of
        (st', p', out) \<Rightarrow>
          (case wsteps scr envs st' p' of (st'', p'', out') \<Rightarrow> (st'', p'', out @ out')))"

section \<open>A small site\<close>

text \<open>Three resources of one host, for the examples: the home page links to a second
  page, to a PDF and to another host, and has an image with a \<open>src\<close> and one without.\<close>

definition tag :: "string \<Rightarrow> (string \<times> string) list \<Rightarrow> Token" where
  "tag name attrs =
     \<lparr>Type = StartTagToken, Data = name, Attr = map (\<lambda>(k, v). \<lparr>Key = k, Val = v\<rparr>) attrs\<rparr>"

definition example_site :: "string \<Rightarrow> http_result" where
  "example_site url =
     (if url = ''http://a.com'' then
        Response ''text/html; charset=utf-8''
          [tag ''html'' [], tag ''a'' [(''href'', ''/b?y=2&x=1#top'')],
           tag ''img'' [(''src'', ''/logo.png'')], tag ''a'' [(''href'', ''http://b.com/q'')],
           tag ''img'' [(''alt'', ''no source'')], tag ''a'' [(''href'', ''doc.pdf'')]]
      else if url = ''http://a.com/b?x=1&y=2'' then
        Response ''text/html''
          [tag ''a'' [(''class'', ''home''), (''href'', ''/'')], tag ''a'' [(''href'', ''//a.com//b?x=1&y=2'')]]
      else if url = ''http://a.com/doc.pdf'' then Response ''application/pdf'' []
      else GetError)"

definition example_pages :: "string list" where
  "example_pages = [''http://a.com'', ''http://a.com/b?x=1&y=2'', ''http://a.com/doc.pdf'']"

definition round_robin :: "nat \<Rightarrow> nat \<Rightarrow> nat \<times> nat \<times> bool" where
  "round_robin n t = (t mod n, t, False)"

section \<open>Sites, schedules and calls\<close>

text \<open>The links and the image sources \<open>scrape\<close> returns for a URL (none when it ends the
  process).\<close>

definition links :: "(string \<Rightarrow> scrape_result) \<Rightarrow> string \<Rightarrow> string list" where
  "links scr u = (case snd (scr u) of Inl e \<Rightarrow> [] | Inr (hrefs, imgSrcs) \<Rightarrow> hrefs)"

definition images :: "(string \<Rightarrow> scrape_result) \<Rightarrow> string \<Rightarrow> string list" where
  "images scr u = (case snd (scr u) of Inl e \<Rightarrow> [] | Inr (hrefs, imgSrcs) \<Rightarrow> imgSrcs)"

text \<open>A closed site: \<open>scrape\<close> succeeds on each of its pages, and the links it returns
  are pages of the site.\<close>

definition closed_site :: "(string \<Rightarrow> scrape_result) \<Rightarrow> string set \<Rightarrow> bool" where
  "closed_site scr P = (\<forall>u\<in>P. \<not> isl (snd (scr u)) \<and> set (links scr u) \<subseteq> P)"

text \<open>A fair schedule names each of the \<open>n\<close> workers again after any time; a schedule
  without failures never makes a store command fail.\<close>

definition fair :: "nat \<Rightarrow> (nat \<Rightarrow> nat \<times> nat \<times> bool) \<Rightarrow> bool" where
  "fair n sched = (\<forall>i<n. \<forall>t. \<exists>t'\<ge>t. fst (sched t') = i)"

definition fault_free :: "(nat \<Rightarrow> nat \<times> nat \<times> bool) \<Rightarrow> bool" where
  "fault_free sched = (\<forall>t. \<not> snd (snd (sched t)))"

text \<open>The reply to the \<open>SADD\<close> of \<open>url\<close> to the visited set at step \<open>t\<close> of a run, when the
  step of that time is such a call.\<close>

definition mark_reply :: "(string \<Rightarrow> scrape_result) \<Rightarrow> (nat \<Rightarrow> nat \<times> nat \<times> bool) \<Rightarrow> process \<Rightarrow> nat \<Rightarrow>
    string \<Rightarrow> (redis_error + int) option" where
  "mark_reply scr sched s0 t url =
     (let s = run scr sched s0 t in
      case sched t of (i, k, fault) \<Rightarrow>
        if i < length (workers s) \<and> \<not> halted s \<and> workers s ! i = AtSADDVisited url
        then Some (snd (SADD_visitedHREFs fault url (shared s))) else None)"

section \<open>Invariants and rank of a run without failures\<close>

text \<open>What a worker holds is of the site, and no worker has failed.\<close>

fun held_in :: "string set \<Rightarrow> pc \<Rightarrow> bool" where
  "held_in P (AtSADDVisited u) = (u \<in> P)"
| "held_in P (AtScrape u) = (u \<in> P)"
| "held_in P (AtSend imgSrcs hrefs) = (set hrefs \<subseteq> P)"
| "held_in P Failed = False"
| "held_in P Fatal = False"
| "held_in P p = True"

definition sound :: "string set \<Rightarrow> process \<Rightarrow> bool" where
  "sound P s =
     (set (crawlQ (shared s)) \<subseteq> P \<and> set (visitedHREFs (shared s)) \<subseteq> P \<and>
      (\<forall>p\<in>set (workers s). held_in P p))"

text \<open>The active count is the number of workers between their \<open>INCR\<close> and their
  \<open>DECR\<close>.\<close>

fun act :: "pc \<Rightarrow> int" where
  "act AtSPOP = 1"
| "act (AtSADDVisited u) = 1"
| "act (AtScrape u) = 1"
| "act (AtSend imgSrcs hrefs) = 1"
| "act AtDECR = 1"
| "act p = 0"

definition counted :: "process \<Rightarrow> bool" where
  "counted s = (activeWorkers (shared s) = sum_list (map act (workers s)))"

text \<open>The rank of a state has three parts, compared in this order. The first is the
  work left: the steps a worker has before it is back at the head of its claim loop,
  two for each URL in the queue, and the cost of each page not yet visited. The second
  orders the program points outside the claim loop, one way while the queue has a
  member and another way while it is empty. The third orders the program points of
  the polling loop, and counts only while the queue is empty and no worker is active.\<close>

fun work :: "(string \<Rightarrow> scrape_result) \<Rightarrow> pc \<Rightarrow> nat" where
  "work scr (AtSADDVisited u) = 1"
| "work scr (AtScrape u) = 2 + length (images scr u) + 3 * length (links scr u)"
| "work scr (AtSend imgSrcs hrefs) = 1 + length imgSrcs + 3 * length hrefs"
| "work scr p = 0"

definition todo :: "(string \<Rightarrow> scrape_result) \<Rightarrow> string set \<Rightarrow> store \<Rightarrow> nat" where
  "todo scr P st =
     (\<Sum>u\<in>P - set (visitedHREFs st). work scr (AtScrape u)) + 2 * length (crawlQ st)"

fun waking :: "pc \<Rightarrow> nat" where
  "waking AtINCR = 1"
| "waking AtSCARD = 2"
| "waking AtSleep = 3"
| "waking (AtCheck a) = 4"
| "waking AtGET = 5"
| "waking AtDECR = 6"
| "waking p = 0"

fun leaving :: "pc \<Rightarrow> nat" where
  "leaving AtINCR = 3"
| "leaving AtSPOP = 2"
| "leaving AtDECR = 1"
| "leaving p = 0"

definition ctl :: "bool \<Rightarrow> pc \<Rightarrow> nat" where
  "ctl queue_empty p = (if queue_empty then leaving p else waking p)"

fun spin :: "pc \<Rightarrow> nat" where
  "spin (AtCheck a) = (if a = 0 then 1 else 5)"
| "spin AtSleep = 4"
| "spin AtSCARD = 3"
| "spin AtGET = 2"
| "spin p = 0"

definition Phi :: "(string \<Rightarrow> scrape_result) \<Rightarrow> string set \<Rightarrow> process \<Rightarrow> nat" where
  "Phi scr P s = todo scr P (shared s) + sum_list (map (work scr) (workers s))"

definition Psi :: "process \<Rightarrow> nat" where
  "Psi s = sum_list (map (ctl (crawlQ (shared s) = [])) (workers s))"

definition Theta :: "process \<Rightarrow> nat" where
  "Theta s =
     (if crawlQ (shared s) = [] \<and> activeWorkers (shared s) = 0
      then sum_list (map spin (workers s)) else 0)"

definition rank :: "(string \<Rightarrow> scrape_result) \<Rightarrow> string set \<Rightarrow> process \<Rightarrow> nat \<times> nat \<times> nat" where
  "rank scr P s = (Phi scr P s, Psi s, Theta s)"

definition lower :: "((nat \<times> nat \<times> nat) \<times> (nat \<times> nat \<times> nat)) set" where
  "lower = less_than <*lex*> less_than <*lex*> less_than"

text \<open>A worker is eager when its next step lowers the rank.\<close>

fun busy :: "pc \<Rightarrow> bool" where
  "busy (AtSADDVisited u) = True"
| "busy (AtScrape u) = True"
| "busy (AtSend imgSrcs hrefs) = True"
| "busy p = False"

fun spinning :: "pc \<Rightarrow> bool" where
  "spinning (AtCheck a) = True"
| "spinning AtSleep = True"
| "spinning AtSCARD = True"
| "spinning AtGET = True"
| "spinning p = False"

definition eager :: "store \<Rightarrow> pc \<Rightarrow> bool" where
  "eager st p =
     (busy p \<or>
      (if crawlQ st \<noteq> [] then p \<noteq> Terminated
       else p = AtINCR \<or> p = AtSPOP \<or> p = AtDECR \<or> activeWorkers st = 0 \<and> spinning p))"

text \<open>What the crawl knows of: the queue, the visited set, and the URLs the workers
  hold. A visited page is expanded when it is being scraped or its links are known; the
  queue is staffed when, while it has a member, a worker is in its claim loop or none has
  started.\<close>

fun holds :: "pc \<Rightarrow> string set" where
  "holds (AtSADDVisited u) = {u}"
| "holds (AtSend imgSrcs hrefs) = set hrefs"
| "holds p = {}"

definition crawling :: "pc \<Rightarrow> bool" where
  "crawling p = (p = AtSPOP \<or> busy p)"

definition known :: "process \<Rightarrow> string set" where
  "known s =
     set (crawlQ (shared s)) \<union> set (visitedHREFs (shared s)) \<union> (\<Union>p\<in>set (workers s). holds p)"

definition expanded :: "(string \<Rightarrow> scrape_result) \<Rightarrow> process \<Rightarrow> bool" where
  "expanded scr s =
     (\<forall>u\<in>set (visitedHREFs (shared s)).
        AtScrape u \<in> set (workers s) \<or> set (links scr u) \<subseteq> known s)"

definition staffed :: "process \<Rightarrow> bool" where
  "staffed s =
     (crawlQ (shared s) \<noteq> [] \<longrightarrow>
        (\<exists>p\<in>set (workers s). crawling p) \<or> (\<forall>p\<in>set (workers s). p = AtINCR))"

section \<open>Steps of a process\<close>

lemma gstep_worker:
  "i < length (workers s) \<Longrightarrow> \<not> halted s \<Longrightarrow>
   wstep scr env (shared s) (workers s ! i) = (st', p', out) \<Longrightarrow>
   gstep scr (i, env) s =
     \<lparr>shared = st', workers = (workers s)[i := p'], effects = effects s @ out\<rparr>"
  by (simp add: gstep_def)

lemma gstep_idle: "\<not> i < length (workers s) \<or> halted s \<Longrightarrow> gstep scr (i, env) s = s"
  by (auto simp: gstep_def)

lemma halted_update:
  "i < length ps \<Longrightarrow> Fatal \<notin> set ps \<Longrightarrow> p \<noteq> Fatal \<Longrightarrow> Fatal \<notin> set (ps[i := p])"
  by (metis in_set_conv_nth length_list_update nth_list_update_eq nth_list_update_neq)

section \<open>The resolver\<close>

lemma resolve_loop_eq:
  "resolve_loop lib b skip urls acc =
     acc @ map (toSanitizedString lib)
             (filter (\<lambda>a. skip \<longrightarrow> url_Hostname lib a = url_Hostname lib b)
                (map (url_ResolveReference lib b) (List.map_filter (url_Parse lib) urls)))"
  by (induction urls arbitrary: acc) (auto simp: Let_def split: option.splits)

text \<open>
  C6. For a base that parses, \<open>resolveURLs\<close> returns, in the order of the links: the
  links that parse (the others are dropped, with no error), each resolved against the
  base, those with the hostname of the base only when \<open>skipExternal\<close> is set and all of
  them when it is not, each as its sanitized string. The theorem holds for any
  behaviour of the URL packages.
\<close>

theorem resolveURLs_filters_and_resolves:
  assumes "url_Parse lib base = Some b"
  shows "resolveURLs lib base urls skipExternal =
     map (toSanitizedString lib)
       (filter (\<lambda>a. skipExternal \<longrightarrow> url_Hostname lib a = url_Hostname lib b)
          (map (url_ResolveReference lib b) (List.map_filter (url_Parse lib) urls)))"
  using assms by (simp add: resolveURLs_def resolve_loop_eq)

text \<open>With the base \<open>http://a.com/p\<close> of the spec: the link to \<open>b.com\<close> is dropped when
  external links are skipped and kept when they are not, the malformed link is dropped
  in both cases, and the relative link is resolved.\<close>

theorem resolveURLs_filters_and_resolves_witness:
  "url_Parse neturl ''http://a.com/p'' =
     Some \<lparr>Scheme = ''http'', Opaque = '''', Host = ''a.com'', Path = ''/p'', RawQuery = '''',
            Fragment = ''''\<rparr> \<and>
   url_Parse neturl '':bad'' = None \<and>
   resolveURLs neturl ''http://a.com/p'' [''http://b.com/q'', '':bad'', ''r/../s''] True =
     [''http://a.com/s''] \<and>
   resolveURLs neturl ''http://a.com/p'' [''http://b.com/q'', '':bad'', ''r/../s''] False =
     [''http://b.com/q'', ''http://a.com/s''] \<and>
   map (toSanitizedString neturl)
     (filter (\<lambda>a. url_Hostname neturl a = ''a.com'')
        (map (url_ResolveReference neturl
                \<lparr>Scheme = ''http'', Opaque = '''', Host = ''a.com'', Path = ''/p'',
                   RawQuery = '''', Fragment = ''''\<rparr>)
           (List.map_filter (url_Parse neturl) [''http://b.com/q'', '':bad'', ''r/../s'']))) =
     [''http://a.com/s'']"
proof -
  let ?b = "\<lparr>Scheme = ''http'', Opaque = '''', Host = ''a.com'', Path = ''/p'', RawQuery = '''',
            Fragment = ''''\<rparr>"
  let ?urls = "[''http://b.com/q'', '':bad'', ''r/../s'']"
  have h: "url_Parse neturl ''http://a.com/p'' = Some ?b"
    by code_simp
  have bad: "url_Parse neturl '':bad'' = None"
    by code_simp
  have host: "url_Hostname neturl ?b = ''a.com''"
    by code_simp
  have t: "resolveURLs neturl ''http://a.com/p'' ?urls True = [''http://a.com/s'']"
    by code_simp
  have f: "resolveURLs neturl ''http://a.com/p'' ?urls False =
      [''http://b.com/q'', ''http://a.com/s'']"
    by code_simp
  show ?thesis
    using h bad t f resolveURLs_filters_and_resolves [OF h, of ?urls True]
    by (simp add: host)
qed

section \<open>Pages that are not HTML\<close>

text \<open>
  C5. When the \<open>content-type\<close> of the response does not start with \<open>text/html\<close>,
  \<open>scrape\<close> returns two empty slices; and the worker that scrapes such a page is back at
  the head of its claim loop after two steps that leave the store as it was (nothing
  enqueued, no image added) and print the line of the skip.
\<close>

theorem scrape_skips_non_html:
  assumes "http_Get url = Response ct body" and "\<not> prefix ''text/html'' ct"
    and "i < length (workers s)" and "\<not> halted s" and "workers s ! i = AtScrape url"
  shows "snd (scrape lib http_Get url) = Inr ([], []) \<and>
         gstep (scrape lib http_Get) (i, env2) (gstep (scrape lib http_Get) (i, env1) s) =
           s\<lparr>workers := (workers s)[i := AtSPOP],
              effects := effects s @ [Log (LogSkipping url ct)]\<rparr>"
proof -
  obtain k1 f1 k2 f2 where e: "env1 = (k1, f1)" "env2 = (k2, f2)"
    by (metis surj_pair)
  have sc: "scrape lib http_Get url = ([LogSkipping url ct], Inr ([], []))"
    using assms(1,2) by (simp add: scrape_def)
  have w1: "wstep (scrape lib http_Get) env1 (shared s) (workers s ! i) =
      (shared s, AtSend [] [], [Log (LogSkipping url ct)])"
    using assms(5) sc e by simp
  let ?s1 = "\<lparr>shared = shared s, workers = (workers s)[i := AtSend [] []],
      effects = effects s @ [Log (LogSkipping url ct)]\<rparr>"
  have g1: "gstep (scrape lib http_Get) (i, env1) s = ?s1"
    by (rule gstep_worker [OF assms(3,4) w1])
  have h1: "\<not> halted ?s1"
    using assms(3,4) by (simp add: halted_def halted_update)
  have w2: "wstep (scrape lib http_Get) env2 (shared ?s1) (workers ?s1 ! i) =
      (shared s, AtSPOP, [])"
    using assms(3) e by simp
  have "gstep (scrape lib http_Get) (i, env2) ?s1 =
      \<lparr>shared = shared s, workers = (workers ?s1)[i := AtSPOP], effects = effects ?s1 @ []\<rparr>"
    using assms(3) by (intro gstep_worker [OF _ h1 w2]) simp
  then show ?thesis using g1 sc by simp
qed

text \<open>The PDF of the small site, scraped by the second of two workers while a URL waits
  in the queue.\<close>

theorem scrape_skips_non_html_witness:
  "example_site ''http://a.com/doc.pdf'' = Response ''application/pdf'' [] \<and>
   \<not> prefix ''text/html'' ''application/pdf'' \<and>
   snd (scrape neturl example_site ''http://a.com/doc.pdf'') = Inr ([], []) \<and>
   gstep (scrape neturl example_site) (1, 0, False)
     (gstep (scrape neturl example_site) (1, 0, False)
        \<lparr>shared = Seed False ''http://a.com/b'' emptyStore,
          workers = [AtSPOP, AtScrape ''http://a.com/doc.pdf''], effects = []\<rparr>) =
     \<lparr>shared = Seed False ''http://a.com/b'' emptyStore, workers = [AtSPOP, AtSPOP],
       effects = [Log (LogSkipping ''http://a.com/doc.pdf'' ''application/pdf'')]\<rparr>"
proof -
  have a: "example_site ''http://a.com/doc.pdf'' = Response ''application/pdf'' []"
    by (simp add: example_site_def)
  have b: "\<not> prefix ''text/html'' ''application/pdf''"
    by simp
  show ?thesis
    using a b scrape_skips_non_html [where http_Get = example_site
        and url = "''http://a.com/doc.pdf''" and ct = "''application/pdf''" and body = "[]"
        and i = 1 and lib = neturl and ?env1.0 = "(0, False)" and ?env2.0 = "(0, False)"
        and s = "\<lparr>shared = Seed False ''http://a.com/b'' emptyStore,
          workers = [AtSPOP, AtScrape ''http://a.com/doc.pdf''], effects = []\<rparr>"]
    by (simp add: halted_def)
qed

section \<open>Canonical strings\<close>

lemma Parse_empty: "Parse '''' = Some emptyURL"
  by (simp add: Parse_def emptyURL_def toLower_def)

lemma ResolveReference_empty: "ResolveReference b emptyURL = b"
  by (simp add: ResolveReference_def emptyURL_def)

lemma Parse_frag_link:
  "Parse ''http://a.com/x?b=2&a=1#frag'' =
     Some \<lparr>Scheme = ''http'', Opaque = '''', Host = ''a.com'', Path = ''/x'',
       RawQuery = ''b=2&a=1'', Fragment = ''frag''\<rparr>"
  by code_simp

lemma Parse_slash_link:
  "Parse ''http://a.com//x?a=1&b=2'' =
     Some \<lparr>Scheme = ''http'', Opaque = '''', Host = ''a.com'', Path = ''//x'',
       RawQuery = ''a=1&b=2'', Fragment = ''''\<rparr>"
  by code_simp

lemma removeDots_x: "removeDotSegmentsPath True ''/x'' = ''/x''"
  by code_simp

lemma removeDots_xx: "removeDotSegmentsPath True ''//x'' = ''//x''"
  by code_simp

lemma sanitize_frag_link:
  "toSanitizedString neturl \<lparr>Scheme = ''http'', Opaque = '''', Host = ''a.com'', Path = ''/x'',
       RawQuery = ''b=2&a=1'', Fragment = ''frag''\<rparr> = ''http://a.com/x?a=1&b=2''"
  by code_simp

lemma sanitize_slash_link:
  "toSanitizedString neturl \<lparr>Scheme = ''http'', Opaque = '''', Host = ''a.com'', Path = ''//x'',
       RawQuery = ''a=1&b=2'', Fragment = ''''\<rparr> = ''http://a.com/x?a=1&b=2''"
  by code_simp

lemma resolve_frag_link:
  "resolveURLs neturl base [''http://a.com/x?b=2&a=1#frag''] skip =
     (case Parse base of None \<Rightarrow> []
      | Some b \<Rightarrow> if skip \<and> ''a.com'' \<noteq> Hostname b then [] else [''http://a.com/x?a=1&b=2''])"
  using sanitize_frag_link
  by (simp add: resolveURLs_def neturl_def Parse_frag_link ResolveReference_def removeDots_x
      Hostname_def split: option.splits)

lemma resolve_slash_link:
  "resolveURLs neturl base [''http://a.com//x?a=1&b=2''] skip =
     (case Parse base of None \<Rightarrow> []
      | Some b \<Rightarrow> if skip \<and> ''a.com'' \<noteq> Hostname b then [] else [''http://a.com/x?a=1&b=2''])"
  using sanitize_slash_link
  by (simp add: resolveURLs_def neturl_def Parse_slash_link ResolveReference_def removeDots_xx
      Hostname_def split: option.splits)

text \<open>The canonical string, flag by flag\<close>

lemma toSanitizedString_neturl:
  "toSanitizedString neturl u =
     URL_String (removeTrailingSlash (sortQuery (removeDuplicateSlashes (removeFragment
       (removeDotSegments (removeDefaultPort (lowercaseHost (lowercaseScheme u))))))))"
  by (simp add: toSanitizedString_def neturl_def NormalizeURL_def flagsOrder_def
      FlagsUsuallySafeGreedy_def FlagsSafe_def)

text \<open>The fragment\<close>

lemma canonical_fragment:
  "toSanitizedString neturl (u\<lparr>Fragment := f\<rparr>) = toSanitizedString neturl (u\<lparr>Fragment := g\<rparr>)"
  by (simp add: toSanitizedString_neturl lowercaseScheme_def lowercaseHost_def
      removeDefaultPort_def removeDotSegments_def removeFragment_def)

text \<open>Path separators\<close>

lemma splitOn_not_Nil [simp]: "splitOn c xs \<noteq> []"
  by (induction xs) (auto split: list.splits)

lemma splitOn_append:
  "splitOn c (xs @ c # ys) = splitOn c xs @ splitOn c ys"
proof (induction xs)
  case Nil
  show ?case by simp
next
  case (Cons x xs)
  obtain s ss where s: "splitOn c xs = s # ss"
    by (cases "splitOn c xs") simp_all
  show ?case
    using Cons s by simp
qed

lemma joinWith_Cons: "ss \<noteq> [] \<Longrightarrow> joinWith c ((x # s) # ss) = x # joinWith c (s # ss)"
  by (cases ss) simp_all

lemma joinWith_splitOn: "joinWith c (splitOn c xs) = xs"
proof (induction xs)
  case Nil
  show ?case by simp
next
  case (Cons x xs)
  obtain s ss where s: "splitOn c xs = s # ss"
    by (cases "splitOn c xs") simp_all
  show ?case
    using Cons s by (cases ss) simp_all
qed

lemma dotFree_plain:
  "''.'' \<notin> set xs \<Longrightarrow> ''..'' \<notin> set xs \<Longrightarrow> dotFree xs stack = stack @ xs"
  by (induction xs arbitrary: stack) auto

lemma removeDotSegmentsPath_plain:
  assumes "''.'' \<notin> set (splitOn CHR ''/'' x)" and "''..'' \<notin> set (splitOn CHR ''/'' x)"
    and "x \<noteq> []"
  shows "removeDotSegmentsPath h x = (if h \<and> \<not> prefix ''/'' x then CHR ''/'' # x else x)"
proof -
  have "last (splitOn CHR ''/'' x) \<in> set (splitOn CHR ''/'' x)"
    by simp
  then have "last (splitOn CHR ''/'' x) \<noteq> ''.''" "last (splitOn CHR ''/'' x) \<noteq> ''..''"
    using assms(1,2) by metis+
  then show ?thesis
    using assms by (simp add: removeDotSegmentsPath_def dotFree_plain joinWith_splitOn Let_def)
qed

lemma dedupSlashes_double:
  "dedupSlashes (p @ ''//'' @ q) = dedupSlashes (p @ ''/'' @ q)"
  by (induction p rule: dedupSlashes.induct) simp_all

lemma canonical_path_cong:
  assumes "\<And>h. dedupSlashes (removeDotSegmentsPath h x) = dedupSlashes (removeDotSegmentsPath h y)"
  shows "toSanitizedString neturl (u\<lparr>Path := x\<rparr>) = toSanitizedString neturl (u\<lparr>Path := y\<rparr>)"
  using assms
  by (simp add: toSanitizedString_neturl lowercaseScheme_def lowercaseHost_def
      removeDefaultPort_def removeDotSegments_def removeFragment_def removeDuplicateSlashes_def)

lemma canonical_slashes:
  assumes "''.'' \<notin> set (splitOn CHR ''/'' (p @ ''/'' @ q))"
    and "''..'' \<notin> set (splitOn CHR ''/'' (p @ ''/'' @ q))"
  shows "toSanitizedString neturl (u\<lparr>Path := p @ ''//'' @ q\<rparr>) =
    toSanitizedString neturl (u\<lparr>Path := p @ ''/'' @ q\<rparr>)"
proof (rule canonical_path_cong)
  fix h
  have one: "splitOn CHR ''/'' (p @ ''/'' @ q) = splitOn CHR ''/'' p @ splitOn CHR ''/'' q"
    using splitOn_append [of "CHR ''/''" p q] by simp
  have two: "splitOn CHR ''/'' (p @ ''//'' @ q) =
      splitOn CHR ''/'' p @ [] # splitOn CHR ''/'' q"
    using splitOn_append [of "CHR ''/''" p "CHR ''/'' # q"] by simp
  have d: "''.'' \<notin> set (splitOn CHR ''/'' (p @ ''//'' @ q))"
    "''..'' \<notin> set (splitOn CHR ''/'' (p @ ''//'' @ q))"
    using assms unfolding one two by simp_all
  have pre: "prefix ''/'' (p @ ''//'' @ q) = prefix ''/'' (p @ ''/'' @ q)"
    by (cases p) simp_all
  have "dedupSlashes (CHR ''/'' # p @ ''//'' @ q) = dedupSlashes (CHR ''/'' # p @ ''/'' @ q)"
    using dedupSlashes_double [of "CHR ''/'' # p" q] by simp
  then show "dedupSlashes (removeDotSegmentsPath h (p @ ''//'' @ q)) =
      dedupSlashes (removeDotSegmentsPath h (p @ ''/'' @ q))"
    using removeDotSegmentsPath_plain [OF d, of h] removeDotSegmentsPath_plain [OF assms, of h]
      pre dedupSlashes_double [of p q]
    by simp
qed

text \<open>The order of the query parameters\<close>

lemma sort_mset_eq:
  assumes "mset xs = mset ys"
  shows "sort xs = sort ys"
proof (rule properties_for_sort)
  show "mset (sort ys) = mset xs"
    using assms by simp
  show "sorted (sort ys)"
    by simp
qed

lemma all_empty_eq:
  assumes "\<forall>x\<in>set xs. x = []" and "mset xs = mset ys"
  shows "xs = ys"
proof -
  have s: "set xs = set ys"
    using assms(2) by (rule mset_eq_setD)
  have l: "length xs = length ys"
    using assms(2) by (rule mset_eq_length)
  have "replicate (length xs) [] = xs"
    by (rule replicate_length_same) (use assms(1) in simp)
  moreover have "replicate (length ys) [] = ys"
    by (rule replicate_length_same) (use assms(1) s in simp)
  ultimately show ?thesis
    unfolding l by (rule trans [OF sym])
qed

lemma canonical_query:
  assumes "mset (splitOn CHR ''&'' q1) = mset (splitOn CHR ''&'' q2)"
  shows "toSanitizedString neturl (u\<lparr>RawQuery := q1\<rparr>) = toSanitizedString neturl (u\<lparr>RawQuery := q2\<rparr>)"
proof -
  define w where "w = removeDuplicateSlashes (removeFragment (removeDotSegments
    (removeDefaultPort (lowercaseHost (lowercaseScheme u)))))"
  have comm: "removeDuplicateSlashes (removeFragment (removeDotSegments
      (removeDefaultPort (lowercaseHost (lowercaseScheme (u\<lparr>RawQuery := q\<rparr>)))))) =
      w\<lparr>RawQuery := q\<rparr>" for q
    by (simp add: w_def lowercaseScheme_def lowercaseHost_def removeDefaultPort_def
        removeDotSegments_def removeFragment_def removeDuplicateSlashes_def)
  have m: "mset (queryParams q1) = mset (queryParams q2)"
    using assms by (simp add: queryParams_def)
  then have s: "sort (queryParams q1) = sort (queryParams q2)"
    by (rule sort_mset_eq)
  have e: "(queryParams q1 = []) = (queryParams q2 = [])"
    using m by (metis mset_zero_iff)
  have same: "q1 = q2" if "queryParams q1 = []"
  proof -
    have "\<forall>x\<in>set (splitOn CHR ''&'' q1). x = []"
      using that by (auto simp: queryParams_def filter_empty_conv)
    then have "splitOn CHR ''&'' q1 = splitOn CHR ''&'' q2"
      using assms by (rule all_empty_eq)
    then show ?thesis
      by (metis joinWith_splitOn)
  qed
  have "sortQuery (w\<lparr>RawQuery := q1\<rparr>) = sortQuery (w\<lparr>RawQuery := q2\<rparr>)"
  proof (cases "queryParams q1 = []")
    case True
    then have "q1 = q2" by (rule same)
    then show ?thesis by simp
  next
    case False
    then have "queryParams q2 \<noteq> []"
      using e by simp
    then show ?thesis
      using False s by (simp add: sortQuery_def Let_def)
  qed
  then show ?thesis
    unfolding toSanitizedString_neturl comm by simp
qed

lemma resolve_examples:
  "resolveURLs neturl ''http://a.com/p''
     [''http://a.com/x?b=2&a=1#frag'', ''http://a.com//x?a=1&b=2'', ''http://a.com/y?a=1&b=2'',
      ''/x?a=2&a=1'', ''/a%7eb'', ''/a b''] True =
     [''http://a.com/x?a=1&b=2'', ''http://a.com/x?a=1&b=2'', ''http://a.com/y?a=1&b=2'',
      ''http://a.com/x?a=1&a=2'', ''http://a.com/a~b'', ''http://a.com/a%20b'']"
  by code_simp

text \<open>
  C7. In the model of the URL packages, the canonical string of a URL does not depend on
  its fragment, nor on a path separator being doubled (in a path without dot segments,
  which are removed first), nor on the order of the parameters of its query. So
  \<open>resolveURLs\<close> gives the same result for \<open>http://a.com/x?b=2&a=1#frag\<close> and for
  \<open>http://a.com//x?a=1&b=2\<close>, whatever the base and the origin restriction: from the base
  \<open>http://a.com/p\<close> the one string \<open>http://a.com/x?a=1&b=2\<close>, which is not the string of
  the path \<open>/y\<close>. The values of a repeated key are in order too, an escape that is not
  needed is decoded, and a space in a path is escaped.
\<close>

theorem canonical_strings_agree:
  assumes "''.'' \<notin> set (splitOn CHR ''/'' (p @ ''/'' @ q))"
    and "''..'' \<notin> set (splitOn CHR ''/'' (p @ ''/'' @ q))"
    and "mset (splitOn CHR ''&'' q1) = mset (splitOn CHR ''&'' q2)"
  shows "toSanitizedString neturl (u\<lparr>Fragment := f\<rparr>) =
      toSanitizedString neturl (u\<lparr>Fragment := ''''\<rparr>) \<and>
    toSanitizedString neturl (u\<lparr>Path := p @ ''//'' @ q\<rparr>) =
      toSanitizedString neturl (u\<lparr>Path := p @ ''/'' @ q\<rparr>) \<and>
    toSanitizedString neturl (u\<lparr>RawQuery := q1\<rparr>) =
      toSanitizedString neturl (u\<lparr>RawQuery := q2\<rparr>) \<and>
    resolveURLs neturl base [''http://a.com/x?b=2&a=1#frag''] skipExternal =
      resolveURLs neturl base [''http://a.com//x?a=1&b=2''] skipExternal \<and>
    resolveURLs neturl ''http://a.com/p''
      [''http://a.com/x?b=2&a=1#frag'', ''http://a.com//x?a=1&b=2'', ''http://a.com/y?a=1&b=2'',
       ''/x?a=2&a=1'', ''/a%7eb'', ''/a b''] True =
      [''http://a.com/x?a=1&b=2'', ''http://a.com/x?a=1&b=2'', ''http://a.com/y?a=1&b=2'',
       ''http://a.com/x?a=1&a=2'', ''http://a.com/a~b'', ''http://a.com/a%20b'']"
proof (intro conjI)
  show "toSanitizedString neturl (u\<lparr>Fragment := f\<rparr>) =
      toSanitizedString neturl (u\<lparr>Fragment := ''''\<rparr>)"
    by (rule canonical_fragment)
  show "toSanitizedString neturl (u\<lparr>Path := p @ ''//'' @ q\<rparr>) =
      toSanitizedString neturl (u\<lparr>Path := p @ ''/'' @ q\<rparr>)"
    by (rule canonical_slashes [OF assms(1,2)])
  show "toSanitizedString neturl (u\<lparr>RawQuery := q1\<rparr>) =
      toSanitizedString neturl (u\<lparr>RawQuery := q2\<rparr>)"
    by (rule canonical_query [OF assms(3)])
  show "resolveURLs neturl base [''http://a.com/x?b=2&a=1#frag''] skipExternal =
      resolveURLs neturl base [''http://a.com//x?a=1&b=2''] skipExternal"
    by (simp add: resolve_frag_link resolve_slash_link)
  show "resolveURLs neturl ''http://a.com/p''
      [''http://a.com/x?b=2&a=1#frag'', ''http://a.com//x?a=1&b=2'', ''http://a.com/y?a=1&b=2'',
       ''/x?a=2&a=1'', ''/a%7eb'', ''/a b''] True =
      [''http://a.com/x?a=1&b=2'', ''http://a.com/x?a=1&b=2'', ''http://a.com/y?a=1&b=2'',
       ''http://a.com/x?a=1&a=2'', ''http://a.com/a~b'', ''http://a.com/a%20b'']"
    by (rule resolve_examples)
qed

text \<open>The parsed form of \<open>http://a.com/x?b=2&a=1#frag\<close>, its path with the separator
  doubled and its query in the other order.\<close>

theorem canonical_strings_agree_witness:
  "''.'' \<notin> set (splitOn CHR ''/'' ('''' @ ''/'' @ ''x'')) \<and>
   ''..'' \<notin> set (splitOn CHR ''/'' ('''' @ ''/'' @ ''x'')) \<and>
   mset (splitOn CHR ''&'' ''b=2&a=1'') = mset (splitOn CHR ''&'' ''a=1&b=2'') \<and>
   toSanitizedString neturl \<lparr>Scheme = ''http'', Opaque = '''', Host = ''a.com'', Path = ''/x'',
     RawQuery = ''b=2&a=1'', Fragment = ''frag''\<rparr> = ''http://a.com/x?a=1&b=2'' \<and>
   toSanitizedString neturl \<lparr>Scheme = ''http'', Opaque = '''', Host = ''a.com'', Path = ''/x'',
     RawQuery = ''b=2&a=1'', Fragment = ''''\<rparr> = ''http://a.com/x?a=1&b=2'' \<and>
   toSanitizedString neturl \<lparr>Scheme = ''http'', Opaque = '''', Host = ''a.com'', Path = ''//x'',
     RawQuery = ''b=2&a=1'', Fragment = ''frag''\<rparr> = ''http://a.com/x?a=1&b=2'' \<and>
   toSanitizedString neturl \<lparr>Scheme = ''http'', Opaque = '''', Host = ''a.com'', Path = ''/x'',
     RawQuery = ''a=1&b=2'', Fragment = ''frag''\<rparr> = ''http://a.com/x?a=1&b=2'' \<and>
   resolveURLs neturl ''http://a.com/p'' [''http://a.com/x?b=2&a=1#frag''] True =
     resolveURLs neturl ''http://a.com/p'' [''http://a.com//x?a=1&b=2''] True"
proof -
  let ?u = "\<lparr>Scheme = ''http'', Opaque = '''', Host = ''a.com'', Path = ''/x'',
     RawQuery = ''b=2&a=1'', Fragment = ''frag''\<rparr>"
  have s: "splitOn CHR ''/'' ('''' @ ''/'' @ ''x'') = ['''', ''x'']"
    by code_simp
  have d: "''.'' \<notin> set (splitOn CHR ''/'' ('''' @ ''/'' @ ''x''))"
    "''..'' \<notin> set (splitOn CHR ''/'' ('''' @ ''/'' @ ''x''))"
    unfolding s by simp_all
  have q: "splitOn CHR ''&'' ''b=2&a=1'' = [''b=2'', ''a=1'']"
    "splitOn CHR ''&'' ''a=1&b=2'' = [''a=1'', ''b=2'']"
    by code_simp+
  have m: "mset (splitOn CHR ''&'' ''b=2&a=1'') = mset (splitOn CHR ''&'' ''a=1&b=2'')"
    unfolding q by simp
  note c = canonical_strings_agree [OF d m, where u = ?u and f = "''frag''"
      and base = "''http://a.com/p''" and skipExternal = True]
  have v: "toSanitizedString neturl ?u = ''http://a.com/x?a=1&b=2''"
    by (rule sanitize_frag_link)
  have c1: "toSanitizedString neturl (?u\<lparr>Fragment := ''frag''\<rparr>) =
      toSanitizedString neturl (?u\<lparr>Fragment := ''''\<rparr>)"
    and c2: "toSanitizedString neturl (?u\<lparr>Path := '''' @ ''//'' @ ''x''\<rparr>) =
      toSanitizedString neturl (?u\<lparr>Path := '''' @ ''/'' @ ''x''\<rparr>)"
    and c3: "toSanitizedString neturl (?u\<lparr>RawQuery := ''b=2&a=1''\<rparr>) =
      toSanitizedString neturl (?u\<lparr>RawQuery := ''a=1&b=2''\<rparr>)"
    and c4: "resolveURLs neturl ''http://a.com/p'' [''http://a.com/x?b=2&a=1#frag''] True =
      resolveURLs neturl ''http://a.com/p'' [''http://a.com//x?a=1&b=2''] True"
    using c by blast+
  have e1: "toSanitizedString neturl \<lparr>Scheme = ''http'', Opaque = '''', Host = ''a.com'',
      Path = ''/x'', RawQuery = ''b=2&a=1'', Fragment = ''''\<rparr> = ''http://a.com/x?a=1&b=2''"
    using c1 v by simp
  have e2: "toSanitizedString neturl \<lparr>Scheme = ''http'', Opaque = '''', Host = ''a.com'',
      Path = ''//x'', RawQuery = ''b=2&a=1'', Fragment = ''frag''\<rparr> = ''http://a.com/x?a=1&b=2''"
    using c2 v by simp
  have e3: "toSanitizedString neturl \<lparr>Scheme = ''http'', Opaque = '''', Host = ''a.com'',
      Path = ''/x'', RawQuery = ''a=1&b=2'', Fragment = ''frag''\<rparr> = ''http://a.com/x?a=1&b=2''"
    using c3 v by simp
  show ?thesis
    by (intro conjI d m v e1 e2 e3 c4)
qed

section \<open>Images without a source\<close>

text \<open>The extractor on a tag\<close>

lemma firstAttr_absent: "\<forall>a\<in>set as. Key a \<noteq> n \<Longrightarrow> firstAttr n as = ''''"
  by (induction as) auto

lemma parse_loop_Cons:
  "parse_loop (tok # toks) imgs hrefs =
     (if Type tok = ErrorToken then (imgs, hrefs)
      else if Type tok = StartTagToken \<or> Type tok = SelfClosingTagToken then
        parse_loop toks
          (if fst (matchTag tok ''img'' ''src'') then imgs @ [snd (matchTag tok ''img'' ''src'')]
           else imgs)
          (if fst (matchTag tok ''a'' ''href'') then hrefs @ [snd (matchTag tok ''a'' ''href'')]
           else hrefs)
      else parse_loop toks imgs hrefs)"
  by (simp add: Let_def split: prod.splits)

lemma parse_loop_mono: "x \<in> set imgs \<Longrightarrow> x \<in> set (fst (parse_loop toks imgs hrefs))"
proof (induction toks arbitrary: imgs hrefs)
  case Nil
  then show ?case by simp
next
  case (Cons tok toks)
  show ?case
    unfolding parse_loop_Cons using Cons.prems by (auto intro!: Cons.IH)
qed

lemma parse_loop_img:
  assumes "\<forall>t\<in>set pre. Type t \<noteq> ErrorToken"
    and "Type tok = StartTagToken \<or> Type tok = SelfClosingTagToken"
    and "matchTag tok ''img'' ''src'' = (True, v)"
  shows "v \<in> set (fst (parse_loop (pre @ tok # post) imgs hrefs))"
  using assms(1)
proof (induction pre arbitrary: imgs hrefs)
  case Nil
  show ?case
    unfolding append_Nil parse_loop_Cons using assms(2,3) by (auto intro!: parse_loop_mono)
next
  case (Cons t pre)
  show ?case
    unfolding append_Cons parse_loop_Cons using Cons.prems by (auto intro!: Cons.IH)
qed

lemma resolve_empty_link:
  assumes "Parse url = Some b" and "[] \<in> set srcs"
  shows "toSanitizedString neturl b \<in> set (resolveURLs neturl url srcs False)"
proof -
  have e: "emptyURL \<in> set (List.map_filter Parse srcs)"
    using assms(2) Parse_empty by (force simp: List.map_filter_def)
  have "set (resolveURLs neturl url srcs False) =
      (\<lambda>x. toSanitizedString neturl (ResolveReference b x)) ` set (List.map_filter Parse srcs)"
    using assms(1) by (simp add: resolveURLs_def resolve_loop_eq neturl_def image_image)
  moreover have "toSanitizedString neturl b =
      (\<lambda>x. toSanitizedString neturl (ResolveReference b x)) emptyURL"
    by (simp add: ResolveReference_empty)
  ultimately show ?thesis
    using e by (metis (no_types, lifting) imageI)
qed

text \<open>The two loops of sends\<close>

lemma wsteps_append:
  "wsteps scr (es @ fs) st p =
     (case wsteps scr es st p of
        (st', p', out) \<Rightarrow>
          (case wsteps scr fs st' p' of (st'', p'', out') \<Rightarrow> (st'', p'', out @ out')))"
  by (induction es arbitrary: st p) (auto split: prod.splits)

lemma set_sadd: "set (fst (sadd x xs)) = insert x (set xs)"
  by (auto simp: sadd_def)

lemma wsteps_send_hrefs:
  "\<exists>st'. wsteps scr (replicate (Suc (length hrefs)) (k, False)) st (AtSend [] hrefs) =
       (st', AtSPOP, []) \<and>
     set (imageSrcs st') = set (imageSrcs st) \<and> set (crawlQ st') = set (crawlQ st) \<union> set hrefs"
proof (induction hrefs arbitrary: st)
  case Nil
  show ?case by simp
next
  case (Cons h hrefs)
  let ?st1 = "fst (SADD_crawlQ False h st)"
  obtain st' where s: "wsteps scr (replicate (Suc (length hrefs)) (k, False)) ?st1 (AtSend [] hrefs) =
       (st', AtSPOP, [])"
    "set (imageSrcs st') = set (imageSrcs ?st1)" "set (crawlQ st') = set (crawlQ ?st1) \<union> set hrefs"
    using Cons.IH [of ?st1] by blast
  have "wsteps scr (replicate (Suc (length (h # hrefs))) (k, False)) st (AtSend [] (h # hrefs)) =
      (st', AtSPOP, [])"
    using s(1) by simp
  moreover have "set (imageSrcs st') = set (imageSrcs st)"
    using s(2) by (simp add: SADD_crawlQ_def)
  moreover have "set (crawlQ st') = set (crawlQ st) \<union> set (h # hrefs)"
    using s(3) by (simp add: SADD_crawlQ_def set_sadd)
  ultimately show ?case by blast
qed

lemma wsteps_send:
  "\<exists>st'. wsteps scr (replicate (Suc (length imgs + length hrefs)) (k, False)) st (AtSend imgs hrefs) =
       (st', AtSPOP, []) \<and>
     set (imageSrcs st') = set (imageSrcs st) \<union> set imgs \<and>
     set (crawlQ st') = set (crawlQ st) \<union> set hrefs"
proof (induction imgs arbitrary: st)
  case Nil
  show ?case using wsteps_send_hrefs [of scr hrefs k st] by simp
next
  case (Cons i imgs)
  let ?st1 = "fst (SADD_imageSrcs False i st)"
  obtain st' where s:
    "wsteps scr (replicate (Suc (length imgs + length hrefs)) (k, False)) ?st1 (AtSend imgs hrefs) =
       (st', AtSPOP, [])"
    "set (imageSrcs st') = set (imageSrcs ?st1) \<union> set imgs"
    "set (crawlQ st') = set (crawlQ ?st1) \<union> set hrefs"
    using Cons.IH [of ?st1] by blast
  have "wsteps scr (replicate (Suc (length (i # imgs) + length hrefs)) (k, False)) st
      (AtSend (i # imgs) hrefs) = (st', AtSPOP, [])"
    using s(1) by simp
  moreover have "set (imageSrcs st') = set (imageSrcs st) \<union> set (i # imgs)"
    using s(2) by (simp add: SADD_imageSrcs_def set_sadd)
  moreover have "set (crawlQ st') = set (crawlQ st) \<union> set hrefs"
    using s(3) by (simp add: SADD_imageSrcs_def)
  ultimately show ?case by blast
qed

text \<open>
  C10. A page of type HTML whose URL parses has, before any error token, an \<open>img\<close> start
  or self-closing tag with no \<open>src\<close> attribute. Then \<open>matchTag\<close> matches the tag with the
  empty string, \<open>parse\<close> collects the empty string among the image sources,
  \<open>resolveURLs\<close> turns the empty string into the sanitized string of the page's own URL
  (in the model of the URL packages), \<open>scrape\<close> returns that string among the image
  sources, and the worker that scrapes the page and sends what it found has it in the
  image set of the store when it is back at the head of its claim loop.
\<close>

theorem img_without_src_adds_page_url:
  assumes "Parse url = Some b"
    and "http_Get url = Response ct (pre @ tok # post)" and "prefix ''text/html'' ct"
    and "\<forall>t\<in>set pre. Type t \<noteq> ErrorToken"
    and "Type tok = StartTagToken \<or> Type tok = SelfClosingTagToken"
    and "Data tok = ''img''" and "\<forall>a\<in>set (Attr tok). Key a \<noteq> ''src''"
  shows "matchTag tok ''img'' ''src'' = (True, '''') \<and>
    '''' \<in> set (fst (parse (pre @ tok # post))) \<and>
    resolveURLs neturl url [''''] False = [toSanitizedString neturl b] \<and>
    (\<exists>hrefs imgSrcs st'.
       snd (scrape neturl http_Get url) = Inr (hrefs, imgSrcs) \<and>
       toSanitizedString neturl b \<in> set imgSrcs \<and>
       wsteps (scrape neturl http_Get) (replicate (2 + length imgSrcs + length hrefs) (k, False))
         st (AtScrape url) = (st', AtSPOP, []) \<and>
       toSanitizedString neturl b \<in> set (imageSrcs st'))"
proof -
  let ?scr = "scrape neturl http_Get"
  have m: "matchTag tok ''img'' ''src'' = (True, '''')"
    using assms(6,7) by (simp add: matchTag_def firstAttr_absent)
  have p: "'''' \<in> set (fst (parse (pre @ tok # post)))"
    unfolding parse_def by (rule parse_loop_img [OF assms(4,5) m])
  have r: "resolveURLs neturl url [''''] False = [toSanitizedString neturl b]"
    using assms(1)
    by (simp add: resolveURLs_def neturl_def Parse_empty ResolveReference_empty)
  obtain imgs0 hrefs0 where ph: "parse (pre @ tok # post) = (imgs0, hrefs0)"
    by (cases "parse (pre @ tok # post)")
  let ?imgs = "resolveURLs neturl url imgs0 False"
  let ?hrefs = "resolveURLs neturl url hrefs0 True"
  have sc: "?scr url = ([], Inr (?hrefs, ?imgs))"
    using assms(2,3) ph by (simp add: scrape_def)
  have mem: "toSanitizedString neturl b \<in> set ?imgs"
    using p ph by (intro resolve_empty_link [OF assms(1)]) simp
  obtain st' where w:
    "wsteps ?scr (replicate (Suc (length ?imgs + length ?hrefs)) (k, False)) st (AtSend ?imgs ?hrefs) =
       (st', AtSPOP, [])"
    "set (imageSrcs st') = set (imageSrcs st) \<union> set ?imgs"
    using wsteps_send [of ?scr ?imgs ?hrefs k st] by blast
  have "wsteps ?scr (replicate (2 + length ?imgs + length ?hrefs) (k, False)) st (AtScrape url) =
      (st', AtSPOP, [])"
    using w(1) sc by simp
  moreover have "toSanitizedString neturl b \<in> set (imageSrcs st')"
    using w(2) mem by simp
  ultimately show ?thesis
    using m p r sc mem by auto
qed

text \<open>The home page of the small site: its second image has no \<open>src\<close>, and the page's
  own URL ends up among the images.\<close>

theorem img_without_src_adds_page_url_witness:
  "toSanitizedString neturl
     \<lparr>Scheme = ''http'', Opaque = '''', Host = ''a.com'', Path = '''', RawQuery = '''',
        Fragment = ''''\<rparr> = ''http://a.com'' \<and>
   wsteps (scrape neturl example_site) (replicate 6 (0, False)) emptyStore
       (AtScrape ''http://a.com'') =
     (\<lparr>activeWorkers = 0, crawlQ = [''http://a.com/b?x=1&y=2'', ''http://a.com/doc.pdf''],
        visitedHREFs = [], imageSrcs = [''http://a.com/logo.png'', ''http://a.com'']\<rparr>,
      AtSPOP, []) \<and>
   resolveURLs neturl ''http://a.com'' [''''] False = [''http://a.com''] \<and>
   (\<exists>hrefs imgSrcs st'.
       snd (scrape neturl example_site ''http://a.com'') = Inr (hrefs, imgSrcs) \<and>
       ''http://a.com'' \<in> set imgSrcs \<and>
       wsteps (scrape neturl example_site) (replicate (2 + length imgSrcs + length hrefs) (0, False))
         emptyStore (AtScrape ''http://a.com'') = (st', AtSPOP, []) \<and>
       ''http://a.com'' \<in> set (imageSrcs st'))"
proof -
  let ?b = "\<lparr>Scheme = ''http'', Opaque = '''', Host = ''a.com'', Path = '''', RawQuery = '''',
        Fragment = ''''\<rparr>"
  let ?pre = "[tag ''html'' [], tag ''a'' [(''href'', ''/b?y=2&x=1#top'')],
           tag ''img'' [(''src'', ''/logo.png'')], tag ''a'' [(''href'', ''http://b.com/q'')]]"
  let ?tok = "tag ''img'' [(''alt'', ''no source'')]"
  let ?post = "[tag ''a'' [(''href'', ''doc.pdf'')]]"
  have p: "Parse ''http://a.com'' = Some ?b"
    by code_simp
  have c: "toSanitizedString neturl ?b = ''http://a.com''"
    by code_simp
  have g: "example_site ''http://a.com'' = Response ''text/html; charset=utf-8'' (?pre @ ?tok # ?post)"
    by (simp add: example_site_def)
  have ct: "prefix ''text/html'' ''text/html; charset=utf-8''"
    by simp
  have pre: "\<forall>t\<in>set ?pre. Type t \<noteq> ErrorToken"
    by (simp add: tag_def)
  have ty: "Type ?tok = StartTagToken \<or> Type ?tok = SelfClosingTagToken"
    by (simp add: tag_def)
  have d: "Data ?tok = ''img''"
    by (simp add: tag_def)
  have at: "\<forall>a\<in>set (Attr ?tok). Key a \<noteq> ''src''"
    by (simp add: tag_def)
  have run: "wsteps (scrape neturl example_site) (replicate 6 (0, False)) emptyStore
       (AtScrape ''http://a.com'') =
     (\<lparr>activeWorkers = 0, crawlQ = [''http://a.com/b?x=1&y=2'', ''http://a.com/doc.pdf''],
        visitedHREFs = [], imageSrcs = [''http://a.com/logo.png'', ''http://a.com'']\<rparr>,
      AtSPOP, [])"
    by code_simp
  show ?thesis
    using c run
      img_without_src_adds_page_url [where url = "''http://a.com''" and b = ?b
        and http_Get = example_site and ct = "''text/html; charset=utf-8''"
        and pre = ?pre and tok = ?tok and post = ?post and k = 0 and st = emptyStore,
        OF p g ct pre ty d at]
    by simp
qed

section \<open>One step of a worker, one step of the pool\<close>

lemma wstep_AtSend:
  "wstep scr (k, fault) st (AtSend imgs hrefs) =
     (case imgs of
        u # rest \<Rightarrow> (fst (SADD_imageSrcs fault u st), AtSend rest hrefs, [])
      | [] \<Rightarrow>
          (case hrefs of
             u # rest \<Rightarrow> (fst (SADD_crawlQ fault u st), AtSend [] rest, [])
           | [] \<Rightarrow> (st, AtSPOP, [])))"
  by (cases imgs; cases hrefs; simp)

lemmas store_defs =
  INCR_def DECR_def GET_def SCARD_crawlQ_def SPOP_crawlQ_def SADD_crawlQ_def
  SADD_visitedHREFs_def SADD_imageSrcs_def redis_Int_def sadd_def

lemma wstep_to_Terminated:
  "fst (snd (wstep scr (k, fault) st p)) = Terminated \<longleftrightarrow> p = Terminated \<or> p = AtCheck 0"
  by (cases p)
    (auto simp: wstep_AtSend store_defs Let_def
      split: list.splits prod.splits sum.splits process_exit.splits)

lemma wstep_to_AtCheck:
  "fst (snd (wstep scr (k, fault) st p)) = AtCheck a \<longleftrightarrow>
     p = AtDECR \<and> \<not> fault \<and> a = activeWorkers st - 1 \<or>
     p = AtGET \<and> a = (if fault then 0 else activeWorkers st)"
  by (cases p)
    (auto simp: wstep_AtSend store_defs Let_def
      split: list.splits prod.splits sum.splits process_exit.splits)

lemma wstep_to_AtGET:
  "fst (snd (wstep scr (k, fault) st p)) = AtGET \<longleftrightarrow>
     p = AtSCARD \<and> (fault \<or> crawlQ st = [])"
  by (cases p)
    (auto simp: wstep_AtSend store_defs Let_def
      split: list.splits prod.splits sum.splits process_exit.splits)

lemma wstep_to_AtDECR:
  "fst (snd (wstep scr (k, fault) st p)) = AtDECR \<longleftrightarrow>
     p = AtSPOP \<and> \<not> fault \<and> crawlQ st = []"
  by (cases p)
    (auto simp: wstep_AtSend store_defs Let_def
      split: list.splits prod.splits sum.splits process_exit.splits)

lemma gstep_workers_nth:
  "j < length (workers s) \<Longrightarrow>
   workers (gstep scr (i, env) s) ! j =
     (if i = j \<and> \<not> halted s then fst (snd (wstep scr env (shared s) (workers s ! j)))
      else workers s ! j)"
  by (auto simp: gstep_def split: prod.splits)

lemma length_workers_gstep [simp]: "length (workers (gstep scr ev s)) = length (workers s)"
  by (auto simp: gstep_def split: prod.splits)

lemma length_workers_run [simp]: "length (workers (run scr sched s t)) = length (workers s)"
  by (induction t) auto

lemma Terminated_stays:
  "j < length (workers s) \<Longrightarrow> workers s ! j = Terminated \<Longrightarrow>
   workers (run scr sched s t) ! j = Terminated"
proof (induction t)
  case 0
  then show ?case by simp
next
  case (Suc t)
  obtain i k fault where e: "sched t = (i, k, fault)"
    by (metis surj_pair)
  show ?case
    using Suc e by (simp add: gstep_workers_nth)
qed

lemma halted_run: "halted s \<Longrightarrow> run scr sched s t = s"
proof (induction t)
  case 0
  show ?case by simp
next
  case (Suc t)
  obtain i env where "sched t = (i, env)"
    by (metis surj_pair)
  then show ?case
    using Suc by (simp add: gstep_idle)
qed

section \<open>Termination of a worker\<close>

text \<open>
  C2. A worker of the pool is \<open>Terminated\<close> after a step exactly when it was before, or
  it is the worker that moved and it was at the check of the inner loop with
  \<open>active = 0\<close>. It comes to that check with the value \<open>a\<close> only from its own \<open>DECR\<close>,
  with the value \<open>DECR\<close> returned, or from its own \<open>GET\<close>, with the value read (0 when
  the read fails); to \<open>GET\<close> only from a \<open>SCARD\<close> that did not show a member in the queue;
  and to \<open>DECR\<close> only from an \<open>SPOP\<close> that found the queue empty. A worker that is
  \<open>Terminated\<close> stays so, whatever the schedule.
\<close>

theorem terminated_exactly_at_active_zero:
  assumes "j < length (workers s)"
  shows
    "(workers (gstep scr (i, k, fault) s) ! j = Terminated \<longleftrightarrow>
        workers s ! j = Terminated \<or> i = j \<and> \<not> halted s \<and> workers s ! j = AtCheck 0) \<and>
     (workers (gstep scr (i, k, fault) s) ! j = AtCheck a \<and> workers s ! j \<noteq> AtCheck a \<longleftrightarrow>
        i = j \<and> \<not> halted s \<and>
        (workers s ! j = AtDECR \<and> \<not> fault \<and> a = activeWorkers (shared s) - 1 \<or>
         workers s ! j = AtGET \<and> a = (if fault then 0 else activeWorkers (shared s)))) \<and>
     (workers (gstep scr (i, k, fault) s) ! j = AtGET \<and> workers s ! j \<noteq> AtGET \<longleftrightarrow>
        i = j \<and> \<not> halted s \<and> workers s ! j = AtSCARD \<and> (fault \<or> crawlQ (shared s) = [])) \<and>
     (workers (gstep scr (i, k, fault) s) ! j = AtDECR \<and> workers s ! j \<noteq> AtDECR \<longleftrightarrow>
        i = j \<and> \<not> halted s \<and> workers s ! j = AtSPOP \<and> \<not> fault \<and> crawlQ (shared s) = []) \<and>
     (workers s ! j = Terminated \<longrightarrow> workers (run scr sched s t) ! j = Terminated)"
proof -
  note n = gstep_workers_nth [OF assms, of scr i "(k, fault)"]
  have 1: "workers (gstep scr (i, k, fault) s) ! j = Terminated \<longleftrightarrow>
        workers s ! j = Terminated \<or> i = j \<and> \<not> halted s \<and> workers s ! j = AtCheck 0"
    unfolding n using wstep_to_Terminated [of scr k fault "shared s" "workers s ! j"] by auto
  have 2: "workers (gstep scr (i, k, fault) s) ! j = AtCheck a \<and> workers s ! j \<noteq> AtCheck a \<longleftrightarrow>
        i = j \<and> \<not> halted s \<and>
        (workers s ! j = AtDECR \<and> \<not> fault \<and> a = activeWorkers (shared s) - 1 \<or>
         workers s ! j = AtGET \<and> a = (if fault then 0 else activeWorkers (shared s)))"
    unfolding n using wstep_to_AtCheck [of scr k fault "shared s" "workers s ! j" a] by auto
  have 3: "workers (gstep scr (i, k, fault) s) ! j = AtGET \<and> workers s ! j \<noteq> AtGET \<longleftrightarrow>
        i = j \<and> \<not> halted s \<and> workers s ! j = AtSCARD \<and> (fault \<or> crawlQ (shared s) = [])"
    unfolding n using wstep_to_AtGET [of scr k fault "shared s" "workers s ! j"] by auto
  have 4: "workers (gstep scr (i, k, fault) s) ! j = AtDECR \<and> workers s ! j \<noteq> AtDECR \<longleftrightarrow>
        i = j \<and> \<not> halted s \<and> workers s ! j = AtSPOP \<and> \<not> fault \<and> crawlQ (shared s) = []"
    unfolding n using wstep_to_AtDECR [of scr k fault "shared s" "workers s ! j"] by auto
  have 5: "workers s ! j = Terminated \<longrightarrow> workers (run scr sched s t) ! j = Terminated"
    using Terminated_stays [OF assms] by blast
  show ?thesis
    using 1 2 3 4 5 by blast
qed

text \<open>Two workers: the first is at the check with \<open>active = 0\<close> and terminates by its
  step; the second has terminated and stays so while the schedule keeps naming it.\<close>

theorem terminated_exactly_at_active_zero_witness:
  "workers (gstep (scrape neturl example_site) (0, 0, False)
      \<lparr>shared = emptyStore, workers = [AtCheck 0, Terminated], effects = []\<rparr>) ! 0 = Terminated \<and>
   workers (run (scrape neturl example_site) (round_robin 2)
      \<lparr>shared = emptyStore, workers = [AtCheck 0, Terminated], effects = []\<rparr> 6) ! 1 = Terminated"
proof -
  let ?s = "\<lparr>shared = emptyStore, workers = [AtCheck 0, Terminated], effects = []\<rparr>"
  have l0: "0 < length (workers ?s)" and l1: "1 < length (workers ?s)"
    by simp_all
  have "workers (gstep (scrape neturl example_site) (0, 0, False) ?s) ! 0 = Terminated"
    using terminated_exactly_at_active_zero [OF l0, where scr = "scrape neturl example_site"
        and i = 0 and k = 0 and fault = False]
    by (simp add: halted_def)
  moreover have "workers (run (scrape neturl example_site) (round_robin 2) ?s 6) ! 1 = Terminated"
    using terminated_exactly_at_active_zero [OF l1, where scr = "scrape neturl example_site"
        and sched = "round_robin 2" and t = 6]
    by simp
  ultimately show ?thesis by blast
qed

section \<open>The sleeping worker\<close>

text \<open>
  C9. A worker at \<open>time.Sleep\<close> that runs its next three steps with no failure of the
  store sleeps one second and reads the size of the queue; when the queue has a member
  it increments the active count and is at the head of the claim loop, and when the
  queue is empty it reads the active count and is at the check of the inner loop with the
  value read. The first of the three steps is the sleep, whatever the store does.
\<close>

theorem sleeping_worker_polls_queue:
  "wstep scr env st AtSleep = (st, AtSCARD, [Sleep 1]) \<and>
   wsteps scr [(k1, False), (k2, False), (k3, False)] st AtSleep =
     (if crawlQ st \<noteq> [] then (st\<lparr>activeWorkers := activeWorkers st + 1\<rparr>, AtSPOP, [Sleep 1])
      else (st, AtCheck (activeWorkers st), [Sleep 1]))"
  by (cases env) (simp add: store_defs)

section \<open>Errors of the store\<close>

text \<open>
  C3, as amended. When its store command fails, a worker at \<open>INCR\<close> or \<open>DECR\<close> prints the
  error and \<open>Run\<close> returns, for good; a worker at \<open>SPOP\<close> or at the \<open>SADD\<close> to the visited
  set prints the error and is at the head of the claim loop again; a worker that sends an
  image or a link prints nothing and goes on with the next one; a worker at \<open>SCARD\<close>
  prints nothing, takes the queue to be empty and goes on to \<open>GET\<close>; a worker at \<open>GET\<close>
  prints nothing and takes the active count to be 0, so that its next step, whatever
  the store does then, is the return of \<open>Run\<close> at line 97, for good. In each case the store
  is as it was.
\<close>

theorem store_errors_by_command:
  "wstep scr (k, True) st AtINCR = (st, Failed, [Log LogError]) \<and>
   wstep scr (k, True) st AtDECR = (st, Failed, [Log LogError]) \<and>
   wstep scr (k', f) st Failed = (st, Failed, []) \<and>
   wstep scr (k, True) st AtSPOP = (st, AtSPOP, [Log LogError]) \<and>
   wstep scr (k, True) st (AtSADDVisited url) = (st, AtSPOP, [Log LogError]) \<and>
   wstep scr (k, True) st (AtSend (url # imgSrcs) hrefs) = (st, AtSend imgSrcs hrefs, []) \<and>
   wstep scr (k, True) st (AtSend [] (url # hrefs)) = (st, AtSend [] hrefs, []) \<and>
   wstep scr (k, True) st AtSCARD = (st, AtGET, []) \<and>
   wstep scr (k, True) st AtGET = (st, AtCheck 0, []) \<and>
   wsteps scr [(k, True), (k', f)] st AtGET = (st, Terminated, []) \<and>
   wstep scr (k', f) st Terminated = (st, Terminated, [])"
  by (simp add: store_defs)

text \<open>The claim as stated fails: after an error of \<open>SPOP\<close> the worker has not returned,
  and its next step claims the URL in the queue.\<close>

theorem store_error_in_crawl_continues:
  "fst (snd (wstep (scrape neturl example_site) (0, True) (Seed False ''http://a.com'' emptyStore)
     AtSPOP)) \<noteq> Failed \<and>
   wsteps (scrape neturl example_site) [(0, True), (0, False)]
     (Seed False ''http://a.com'' emptyStore) AtSPOP =
     (emptyStore, AtSADDVisited ''http://a.com'', [Log LogError])"
  by (simp add: store_defs Seed_def emptyStore_def)

section \<open>Failure of a fetch\<close>

text \<open>
  C4, as amended. When \<open>http.Get\<close> fails, \<open>scrape\<close> prints the error and ends the process,
  and returns nothing: the step of the worker that scrapes the URL leaves it at \<open>Fatal\<close>
  with the store as it was, an outcome other than the skip of a page that is not HTML,
  and from then on no worker of the process moves, whatever the schedule.
\<close>

theorem fetch_failure_ends_process:
  assumes "http_Get url = GetError"
    and "i < length (workers s)" and "\<not> halted s" and "workers s ! i = AtScrape url"
  shows "scrape lib http_Get url = ([LogFatal], Inl Exit1) \<and>
    gstep (scrape lib http_Get) (i, env) s =
      s\<lparr>workers := (workers s)[i := Fatal], effects := effects s @ [Log LogFatal]\<rparr> \<and>
    run (scrape lib http_Get) sched (gstep (scrape lib http_Get) (i, env) s) t =
      gstep (scrape lib http_Get) (i, env) s"
proof -
  obtain k fault where e: "env = (k, fault)"
    by (metis surj_pair)
  have sc: "scrape lib http_Get url = ([LogFatal], Inl Exit1)"
    using assms(1) by (simp add: scrape_def)
  have w: "wstep (scrape lib http_Get) env (shared s) (workers s ! i) =
      (shared s, Fatal, [Log LogFatal])"
    using assms(4) sc e by simp
  have g: "gstep (scrape lib http_Get) (i, env) s =
      s\<lparr>workers := (workers s)[i := Fatal], effects := effects s @ [Log LogFatal]\<rparr>"
    using gstep_worker [OF assms(2,3) w] by simp
  have "halted (gstep (scrape lib http_Get) (i, env) s)"
    unfolding g using assms(2) by (simp add: halted_def set_update_memI)
  then show ?thesis
    using sc g halted_run by simp
qed

theorem fetch_failure_ends_process_witness:
  "example_site ''http://a.com/gone'' = GetError \<and>
   run (scrape neturl example_site) (round_robin 2)
     (gstep (scrape neturl example_site) (0, 0, False)
        \<lparr>shared = Seed False ''http://a.com'' emptyStore,
          workers = [AtScrape ''http://a.com/gone'', AtINCR], effects = []\<rparr>) 4 =
     \<lparr>shared = Seed False ''http://a.com'' emptyStore, workers = [Fatal, AtINCR],
       effects = [Log LogFatal]\<rparr>"
proof -
  let ?s = "\<lparr>shared = Seed False ''http://a.com'' emptyStore,
          workers = [AtScrape ''http://a.com/gone'', AtINCR], effects = []\<rparr>"
  have a: "example_site ''http://a.com/gone'' = GetError"
    by (simp add: example_site_def)
  have i: "0 < length (workers ?s)" and h: "\<not> halted ?s"
    and w: "workers ?s ! 0 = AtScrape ''http://a.com/gone''"
    by (simp_all add: halted_def)
  note th = fetch_failure_ends_process [where http_Get = example_site
        and url = "''http://a.com/gone''" and i = 0 and lib = neturl and env = "(0, False)"
        and sched = "round_robin 2" and t = 4 and s = ?s, OF a i h w]
  have g: "gstep (scrape neturl example_site) (0, 0, False) ?s =
      ?s\<lparr>workers := (workers ?s)[0 := Fatal], effects := effects ?s @ [Log LogFatal]\<rparr>"
    using th by blast
  have r: "run (scrape neturl example_site) (round_robin 2)
      (gstep (scrape neturl example_site) (0, 0, False) ?s) 4 =
      gstep (scrape neturl example_site) (0, 0, False) ?s"
    using th by blast
  show ?thesis
    by (subst r) (simp add: g a)
qed

text \<open>The claim as stated fails: the worker whose fetch failed is not at the head of
  its claim loop, and the other worker, scheduled twice, has not moved.\<close>

theorem fetch_failure_halts_workers:
  "workers (run (scrape neturl example_site) (round_robin 2)
     \<lparr>shared = Seed False ''http://a.com'' emptyStore,
       workers = [AtScrape ''http://a.com/gone'', AtINCR], effects = []\<rparr> 4) ! 0 \<noteq> AtSPOP \<and>
   run (scrape neturl example_site) (round_robin 2)
     \<lparr>shared = Seed False ''http://a.com'' emptyStore,
       workers = [AtScrape ''http://a.com/gone'', AtINCR], effects = []\<rparr> 4 =
     \<lparr>shared = Seed False ''http://a.com'' emptyStore, workers = [Fatal, AtINCR],
       effects = [Log LogFatal]\<rparr>"
  by code_simp

section \<open>The visited set\<close>

lemma wstep_visited:
  assumes "wstep scr (k, fault) st p = (st', p', out)"
  shows "set (visitedHREFs st) \<subseteq> set (visitedHREFs st') \<and>
    (\<forall>u. u \<in> set (visitedHREFs st') \<and> u \<notin> set (visitedHREFs st) \<longrightarrow>
       p = AtSADDVisited u \<and> \<not> fault) \<and>
    (\<forall>u. p' = AtScrape u \<and> p \<noteq> AtScrape u \<longrightarrow>
       p = AtSADDVisited u \<and> \<not> fault \<and> u \<notin> set (visitedHREFs st))"
  using assms
  by (cases p)
    (auto simp: wstep_AtSend store_defs Let_def
      split: list.splits prod.splits sum.splits process_exit.splits if_splits)

lemma gstep_shared:
  "i < length (workers s) \<Longrightarrow> \<not> halted s \<Longrightarrow>
   shared (gstep scr (i, env) s) = fst (wstep scr env (shared s) (workers s ! i))"
  by (auto simp: gstep_def split: prod.splits)

lemma gstep_visited:
  "set (visitedHREFs (shared s)) \<subseteq> set (visitedHREFs (shared (gstep scr (i, k, fault) s)))"
proof (cases "i < length (workers s) \<and> \<not> halted s")
  case False
  then show ?thesis
    using gstep_idle [of i s scr "(k, fault)"] by auto
next
  case True
  obtain st' p' out where w: "wstep scr (k, fault) (shared s) (workers s ! i) = (st', p', out)"
    by (metis prod_cases3)
  then show ?thesis
    using True wstep_visited [OF w] by (simp add: gstep_shared)
qed

lemma run_visited_mono:
  "set (visitedHREFs (shared (run scr sched s t))) \<subseteq>
   set (visitedHREFs (shared (run scr sched s (t + d))))"
proof (induction d)
  case 0
  show ?case by simp
next
  case (Suc d)
  obtain i k fault where e: "sched (t + d) = (i, k, fault)"
    by (metis prod_cases3)
  show ?case
    using Suc gstep_visited [of "run scr sched s (t + d)" scr i k fault] e by auto
qed

lemma mark_reply_Some:
  assumes "mark_reply scr sched s0 t u = Some r"
  obtains i k fault where "sched t = (i, k, fault)" "i < length (workers (run scr sched s0 t))"
    "\<not> halted (run scr sched s0 t)" "workers (run scr sched s0 t) ! i = AtSADDVisited u"
    "r = snd (SADD_visitedHREFs fault u (shared (run scr sched s0 t)))"
proof -
  obtain i k fault where e: "sched t = (i, k, fault)"
    by (metis prod_cases3)
  show ?thesis
    using assms e that [OF e] by (auto simp: mark_reply_def Let_def split: if_splits)
qed

lemma mark_reply_value:
  assumes "mark_reply scr sched s0 t u = Some (Inr r)"
  shows "r = (if u \<in> set (visitedHREFs (shared (run scr sched s0 t))) then 0 else 1) \<and>
    u \<in> set (visitedHREFs (shared (run scr sched s0 (Suc t)))) \<and>
    workers (run scr sched s0 (Suc t)) ! fst (sched t) = (if r = 0 then AtSPOP else AtScrape u)"
  using assms
proof (cases rule: mark_reply_Some)
  case (1 i k fault)
  let ?s = "run scr sched s0 t"
  have nf: "\<not> fault"
    using 1(5) by (auto simp: store_defs split: if_splits)
  then have "r = (if u \<in> set (visitedHREFs (shared ?s)) then 0 else 1)"
    using 1(5) by (auto simp: store_defs)
  moreover have "u \<in> set (visitedHREFs (shared (gstep scr (i, k, fault) ?s)))"
    using 1(2,3,4) nf by (auto simp: gstep_shared store_defs)
  moreover have "workers (gstep scr (i, k, fault) ?s) ! i = (if r = 0 then AtSPOP else AtScrape u)"
    using 1(2,3,4) nf calculation(1) by (auto simp: gstep_workers_nth store_defs)
  ultimately show ?thesis
    using 1(1) by simp
qed

lemma first_insert:
  assumes "u \<notin> set (visitedHREFs (shared s0))"
  shows "u \<in> set (visitedHREFs (shared (run scr sched s0 t))) \<Longrightarrow>
    \<exists>t'<t. mark_reply scr sched s0 t' u = Some (Inr 1)"
proof (induction t)
  case 0
  then show ?case using assms by simp
next
  case (Suc t)
  let ?s = "run scr sched s0 t"
  show ?case
  proof (cases "u \<in> set (visitedHREFs (shared ?s))")
    case True
    then show ?thesis
      using Suc.IH less_Suc_eq by blast
  next
    case False
    obtain i k fault where e: "sched t = (i, k, fault)"
      by (metis prod_cases3)
    have moved: "i < length (workers ?s) \<and> \<not> halted ?s"
    proof (rule ccontr)
      assume "\<not> (i < length (workers ?s) \<and> \<not> halted ?s)"
      then have "gstep scr (i, k, fault) ?s = ?s"
        by (intro gstep_idle) blast
      then show False
        using False Suc.prems e by simp
    qed
    obtain st' p' out where w: "wstep scr (k, fault) (shared ?s) (workers ?s ! i) = (st', p', out)"
      by (metis prod_cases3)
    have "u \<in> set (visitedHREFs st')"
      using Suc.prems e moved w by (simp add: gstep_shared)
    then have "workers ?s ! i = AtSADDVisited u \<and> \<not> fault"
      using wstep_visited [OF w] False by blast
    then have "mark_reply scr sched s0 t u = Some (Inr 1)"
      using e moved False by (simp add: mark_reply_def store_defs)
    then show ?thesis by blast
  qed
qed

text \<open>
  C8. In every run of the pool, from any state, with any number of workers, any schedule
  and any failures of the store: at most one \<open>SADD\<close> of a URL to the visited set returns
  1; when the URL was not in the set at the start and some \<open>SADD\<close> of it returns a reply,
  one has returned 1 by then, so exactly one does; the reply is 0 exactly when the URL
  is in the set at the call, and then the worker is back at the head of its claim loop,
  without scraping; a worker comes to scrape a URL only by the \<open>SADD\<close> of it that returned
  1; and no step takes a URL out of the visited set.
\<close>

theorem visited_inserted_exactly_once:
  "(mark_reply scr sched s0 t1 u = Some (Inr 1) \<and> mark_reply scr sched s0 t2 u = Some (Inr 1) \<longrightarrow>
      t1 = t2) \<and>
   (u \<notin> set (visitedHREFs (shared s0)) \<and> mark_reply scr sched s0 t u = Some (Inr r) \<longrightarrow>
      (\<exists>t'\<le>t. mark_reply scr sched s0 t' u = Some (Inr 1))) \<and>
   (mark_reply scr sched s0 t u = Some (Inr r) \<longrightarrow>
      r = (if u \<in> set (visitedHREFs (shared (run scr sched s0 t))) then 0 else 1) \<and>
      workers (run scr sched s0 (Suc t)) ! fst (sched t) = (if r = 0 then AtSPOP else AtScrape u)) \<and>
   (j < length (workers s0) \<and> workers (run scr sched s0 (Suc t)) ! j = AtScrape u \<and>
    workers (run scr sched s0 t) ! j \<noteq> AtScrape u \<longrightarrow>
      fst (sched t) = j \<and> mark_reply scr sched s0 t u = Some (Inr 1)) \<and>
   set (visitedHREFs (shared (run scr sched s0 t))) \<subseteq>
     set (visitedHREFs (shared (run scr sched s0 (t + d))))"
proof -
  have once: "\<not> a < b" if a: "mark_reply scr sched s0 a u = Some (Inr 1)"
    and b: "mark_reply scr sched s0 b u = Some (Inr 1)" for a b
  proof
    assume "a < b"
    then obtain d where d: "b = Suc a + d"
      by (metis less_iff_Suc_add add_Suc)
    have "u \<in> set (visitedHREFs (shared (run scr sched s0 (Suc a))))"
      using mark_reply_value [OF a] by simp
    then have "u \<in> set (visitedHREFs (shared (run scr sched s0 b)))"
      using run_visited_mono [of scr sched s0 "Suc a" d] d by blast
    then show False
      using mark_reply_value [OF b] by simp
  qed
  have 1: "mark_reply scr sched s0 t1 u = Some (Inr 1) \<and>
      mark_reply scr sched s0 t2 u = Some (Inr 1) \<longrightarrow> t1 = t2"
    using once [of t1 t2] once [of t2 t1] by (meson linorder_neqE_nat)
  have 2: "u \<notin> set (visitedHREFs (shared s0)) \<and> mark_reply scr sched s0 t u = Some (Inr r) \<longrightarrow>
      (\<exists>t'\<le>t. mark_reply scr sched s0 t' u = Some (Inr 1))"
  proof (intro impI, elim conjE)
    assume n: "u \<notin> set (visitedHREFs (shared s0))"
      and m: "mark_reply scr sched s0 t u = Some (Inr r)"
    have "u \<in> set (visitedHREFs (shared (run scr sched s0 (Suc t))))"
      using mark_reply_value [OF m] by simp
    from first_insert [OF n this] show "\<exists>t'\<le>t. mark_reply scr sched s0 t' u = Some (Inr 1)"
      using less_Suc_eq_le by blast
  qed
  have 3: "mark_reply scr sched s0 t u = Some (Inr r) \<longrightarrow>
      r = (if u \<in> set (visitedHREFs (shared (run scr sched s0 t))) then 0 else 1) \<and>
      workers (run scr sched s0 (Suc t)) ! fst (sched t) = (if r = 0 then AtSPOP else AtScrape u)"
    using mark_reply_value by blast
  have 4: "j < length (workers s0) \<and> workers (run scr sched s0 (Suc t)) ! j = AtScrape u \<and>
    workers (run scr sched s0 t) ! j \<noteq> AtScrape u \<longrightarrow>
      fst (sched t) = j \<and> mark_reply scr sched s0 t u = Some (Inr 1)"
  proof (intro impI, elim conjE)
    let ?s = "run scr sched s0 t"
    assume j: "j < length (workers s0)"
      and a: "workers (run scr sched s0 (Suc t)) ! j = AtScrape u"
      and b: "workers ?s ! j \<noteq> AtScrape u"
    obtain i k fault where e: "sched t = (i, k, fault)"
      by (metis prod_cases3)
    have jl: "j < length (workers ?s)"
      using j by simp
    have m: "i = j \<and> \<not> halted ?s"
      using a b e gstep_workers_nth [OF jl, of scr i "(k, fault)"] by (auto split: if_splits)
    obtain st' p' out where w: "wstep scr (k, fault) (shared ?s) (workers ?s ! j) = (st', p', out)"
      by (metis prod_cases3)
    have "p' = AtScrape u"
      using a e m w gstep_workers_nth [OF jl, of scr i "(k, fault)"] by simp
    then have "workers ?s ! j = AtSADDVisited u \<and> \<not> fault \<and> u \<notin> set (visitedHREFs (shared ?s))"
      using wstep_visited [OF w] b by blast
    then have "mark_reply scr sched s0 t u = Some (Inr 1)"
      using e m jl by (simp add: mark_reply_def store_defs)
    then show "fst (sched t) = j \<and> mark_reply scr sched s0 t u = Some (Inr 1)"
      using e m by simp
  qed
  show ?thesis
    using 1 2 3 4 run_visited_mono [of scr sched s0 t d] by blast
qed

text \<open>Two workers in turn on the small site: the home page is marked at step 4, with the
  reply 1, and again at step 32, when the second page has linked back to it, with the
  reply 0; the worker of step 32 goes back to the head of its claim loop.\<close>

theorem visited_inserted_exactly_once_witness:
  "mark_reply (scrape neturl example_site) (round_robin 2)
      (RunN 2 (Seed False ''http://a.com'' emptyStore)) 4 ''http://a.com'' = Some (Inr 1) \<and>
   mark_reply (scrape neturl example_site) (round_robin 2)
      (RunN 2 (Seed False ''http://a.com'' emptyStore)) 32 ''http://a.com'' = Some (Inr 0) \<and>
   (\<exists>t'\<le>32. mark_reply (scrape neturl example_site) (round_robin 2)
      (RunN 2 (Seed False ''http://a.com'' emptyStore)) t' ''http://a.com'' = Some (Inr 1)) \<and>
   workers (run (scrape neturl example_site) (round_robin 2)
      (RunN 2 (Seed False ''http://a.com'' emptyStore)) 33) ! fst (round_robin 2 32) = AtSPOP"
proof -
  let ?m = "mark_reply (scrape neturl example_site) (round_robin 2)
      (RunN 2 (Seed False ''http://a.com'' emptyStore))"
  have a: "?m 4 ''http://a.com'' = Some (Inr 1)"
    by code_simp
  have b: "?m 32 ''http://a.com'' = Some (Inr 0)"
    by code_simp
  have n: "''http://a.com'' \<notin> set (visitedHREFs (shared (RunN 2 (Seed False ''http://a.com'' emptyStore))))"
    by (simp add: RunN_def Seed_def emptyStore_def store_defs)
  note th = visited_inserted_exactly_once [where scr = "scrape neturl example_site"
      and sched = "round_robin 2" and ?s0.0 = "RunN 2 (Seed False ''http://a.com'' emptyStore)"
      and u = "''http://a.com''" and t = 32 and r = 0]
  have "\<exists>t'\<le>32. ?m t' ''http://a.com'' = Some (Inr 1)"
    using th n b by blast
  moreover have "workers (run (scrape neturl example_site) (round_robin 2)
      (RunN 2 (Seed False ''http://a.com'' emptyStore)) (Suc 32)) ! fst (round_robin 2 32) = AtSPOP"
    using th b by simp
  ultimately show ?thesis
    using a b by simp
qed

section \<open>Steps without failures\<close>

lemma closed_site_scr:
  assumes "closed_site scr P" and "u \<in> P"
  shows "\<exists>lg. scr u = (lg, Inr (links scr u, images scr u)) \<and> set (links scr u) \<subseteq> P"
proof -
  have n: "\<not> isl (snd (scr u))" and l: "set (links scr u) \<subseteq> P"
    using assms by (auto simp: closed_site_def)
  obtain lg r where s: "scr u = (lg, r)"
    by (cases "scr u")
  obtain hrefs imgSrcs where r: "r = Inr (hrefs, imgSrcs)"
    using n s by (cases r) auto
  have "links scr u = hrefs" "images scr u = imgSrcs"
    using s r by (simp_all add: links_def images_def)
  then show ?thesis
    using s r l by simp
qed

lemma spop_member: "q \<noteq> [] \<Longrightarrow> q ! (k mod length q) \<in> set q"
  by simp

text \<open>The steps of a worker when no store command fails, case by case.\<close>

lemma wstep_cases [consumes 1, case_names incr empty pop seen new scraped fatal img link_new
    link_old flushed decr quiet sleep slept wake still get final]:
  assumes "wstep scr (k, False) st p = (st', p', out)"
  obtains
    "p = AtINCR" "st' = st\<lparr>activeWorkers := activeWorkers st + 1\<rparr>" "p' = AtSPOP"
  | "p = AtSPOP" "crawlQ st = []" "st' = st" "p' = AtDECR"
  | u where "p = AtSPOP" "u \<in> set (crawlQ st)" "st' = st\<lparr>crawlQ := remove1 u (crawlQ st)\<rparr>"
      "p' = AtSADDVisited u"
  | u where "p = AtSADDVisited u" "u \<in> set (visitedHREFs st)" "st' = st" "p' = AtSPOP"
  | u where "p = AtSADDVisited u" "u \<notin> set (visitedHREFs st)"
      "st' = st\<lparr>visitedHREFs := visitedHREFs st @ [u]\<rparr>" "p' = AtScrape u"
  | u lg hs imgs where "p = AtScrape u" "scr u = (lg, Inr (hs, imgs))" "st' = st"
      "p' = AtSend imgs hs"
  | u lg where "p = AtScrape u" "scr u = (lg, Inl Exit1)" "st' = st" "p' = Fatal"
  | x imgs hs where "p = AtSend (x # imgs) hs"
      "st' = st\<lparr>imageSrcs := fst (sadd x (imageSrcs st))\<rparr>" "p' = AtSend imgs hs"
  | h hs where "p = AtSend [] (h # hs)" "h \<notin> set (crawlQ st)"
      "st' = st\<lparr>crawlQ := crawlQ st @ [h]\<rparr>" "p' = AtSend [] hs"
  | h hs where "p = AtSend [] (h # hs)" "h \<in> set (crawlQ st)" "st' = st" "p' = AtSend [] hs"
  | "p = AtSend [] []" "st' = st" "p' = AtSPOP"
  | "p = AtDECR" "st' = st\<lparr>activeWorkers := activeWorkers st - 1\<rparr>"
      "p' = AtCheck (activeWorkers st - 1)"
  | "p = AtCheck 0" "st' = st" "p' = Terminated"
  | a where "p = AtCheck a" "a \<noteq> 0" "st' = st" "p' = AtSleep"
  | "p = AtSleep" "st' = st" "p' = AtSCARD"
  | "p = AtSCARD" "crawlQ st \<noteq> []" "st' = st" "p' = AtINCR"
  | "p = AtSCARD" "crawlQ st = []" "st' = st" "p' = AtGET"
  | "p = AtGET" "st' = st" "p' = AtCheck (activeWorkers st)"
  | "p = Terminated \<or> p = Failed \<or> p = Fatal" "st' = st" "p' = p"
proof (cases p)
  case AtINCR
  then have "st' = st\<lparr>activeWorkers := activeWorkers st + 1\<rparr>" "p' = AtSPOP"
    using assms by (simp_all add: store_defs)
  with AtINCR show ?thesis by (rule that(1))
next
  case AtSPOP
  show ?thesis
  proof (cases "crawlQ st = []")
    case True
    then have "st' = st" "p' = AtDECR"
      using assms AtSPOP by (simp_all add: store_defs)
    with AtSPOP True show ?thesis by (rule that(2))
  next
    case False
    define u where "u = crawlQ st ! (k mod length (crawlQ st))"
    have "u \<in> set (crawlQ st)"
      unfolding u_def using False by (rule spop_member)
    moreover have "st' = st\<lparr>crawlQ := remove1 u (crawlQ st)\<rparr>" "p' = AtSADDVisited u"
      using assms AtSPOP False by (simp_all add: store_defs Let_def u_def)
    ultimately show ?thesis using AtSPOP by (intro that(3))
  qed
next
  case (AtSADDVisited u)
  show ?thesis
  proof (cases "u \<in> set (visitedHREFs st)")
    case True
    then have "st' = st" "p' = AtSPOP"
      using assms AtSADDVisited by (simp_all add: store_defs)
    with AtSADDVisited True show ?thesis by (rule that(4))
  next
    case False
    then have "st' = st\<lparr>visitedHREFs := visitedHREFs st @ [u]\<rparr>" "p' = AtScrape u"
      using assms AtSADDVisited by (simp_all add: store_defs)
    with AtSADDVisited False show ?thesis by (rule that(5))
  qed
next
  case (AtScrape u)
  obtain lg r where s: "scr u = (lg, r)"
    by (cases "scr u")
  show ?thesis
  proof (cases r)
    case (Inl e)
    then have "scr u = (lg, Inl Exit1)"
      using s by (cases e) simp
    moreover from this have "st' = st" "p' = Fatal"
      using assms AtScrape by simp_all
    ultimately show ?thesis using AtScrape by (intro that(7))
  next
    case (Inr hi)
    obtain hs imgs where "hi = (hs, imgs)"
      by (cases hi)
    then have "scr u = (lg, Inr (hs, imgs))"
      using s Inr by simp
    moreover from this have "st' = st" "p' = AtSend imgs hs"
      using assms AtScrape by simp_all
    ultimately show ?thesis using AtScrape by (intro that(6))
  qed
next
  case (AtSend imgs hs)
  show ?thesis
  proof (cases imgs)
    case (Cons x rest)
    then have "p = AtSend (x # rest) hs" "st' = st\<lparr>imageSrcs := fst (sadd x (imageSrcs st))\<rparr>"
      "p' = AtSend rest hs"
      using assms AtSend by (simp_all add: store_defs)
    then show ?thesis by (rule that(8))
  next
    case Nil
    show ?thesis
    proof (cases hs)
      case Nil2: Nil
      then have "p = AtSend [] []" "st' = st" "p' = AtSPOP"
        using assms AtSend Nil by simp_all
      then show ?thesis by (rule that(11))
    next
      case (Cons h rest)
      show ?thesis
      proof (cases "h \<in> set (crawlQ st)")
        case True
        then have "p = AtSend [] (h # rest)" "st' = st" "p' = AtSend [] rest"
          using assms AtSend Nil Cons by (simp_all add: store_defs)
        with True show ?thesis by (intro that(10))
      next
        case False
        then have "p = AtSend [] (h # rest)" "st' = st\<lparr>crawlQ := crawlQ st @ [h]\<rparr>"
          "p' = AtSend [] rest"
          using assms AtSend Nil Cons by (simp_all add: store_defs)
        with False show ?thesis by (intro that(9))
      qed
    qed
  qed
next
  case AtDECR
  then have "st' = st\<lparr>activeWorkers := activeWorkers st - 1\<rparr>"
    "p' = AtCheck (activeWorkers st - 1)"
    using assms by (simp_all add: store_defs)
  with AtDECR show ?thesis by (rule that(12))
next
  case (AtCheck a)
  show ?thesis
  proof (cases "a = 0")
    case True
    then have "p = AtCheck 0" "st' = st" "p' = Terminated"
      using assms AtCheck by simp_all
    then show ?thesis by (rule that(13))
  next
    case False
    then have "st' = st" "p' = AtSleep"
      using assms AtCheck by simp_all
    with AtCheck False show ?thesis by (intro that(14))
  qed
next
  case AtSleep
  then have "st' = st" "p' = AtSCARD"
    using assms by simp_all
  with AtSleep show ?thesis by (rule that(15))
next
  case AtSCARD
  show ?thesis
  proof (cases "crawlQ st = []")
    case True
    then have "st' = st" "p' = AtGET"
      using assms AtSCARD by (simp_all add: store_defs)
    with AtSCARD True show ?thesis by (rule that(17))
  next
    case False
    then have "st' = st" "p' = AtINCR"
      using assms AtSCARD by (simp_all add: store_defs)
    with AtSCARD False show ?thesis by (rule that(16))
  qed
next
  case AtGET
  then have "st' = st" "p' = AtCheck (activeWorkers st)"
    using assms by (auto simp: store_defs)
  with AtGET show ?thesis by (rule that(18))
next
  case Terminated
  then have "p = Terminated \<or> p = Failed \<or> p = Fatal" "st' = st" "p' = p"
    using assms by simp_all
  then show ?thesis by (rule that(19))
next
  case Failed
  then have "p = Terminated \<or> p = Failed \<or> p = Fatal" "st' = st" "p' = p"
    using assms by simp_all
  then show ?thesis by (rule that(19))
next
  case Fatal
  then have "p = Terminated \<or> p = Failed \<or> p = Fatal" "st' = st" "p' = p"
    using assms by simp_all
  then show ?thesis by (rule that(19))
qed

section \<open>One worker's step\<close>

lemma wstep_held:
  assumes "wstep scr (k, False) st p = (st', p', out)"
    and "closed_site scr P" and "set (crawlQ st) \<subseteq> P" and "set (visitedHREFs st) \<subseteq> P"
    and "held_in P p"
  shows "set (crawlQ st') \<subseteq> P \<and> set (visitedHREFs st') \<subseteq> P \<and> held_in P p'"
  using assms(1)
proof (cases rule: wstep_cases)
  case (pop u)
  then show ?thesis
    using assms(3,4) set_remove1_subset [of u "crawlQ st"] by auto
next
  case (scraped u lg hs imgs)
  then show ?thesis
    using assms(3,4,5) closed_site_scr [OF assms(2), of u] by auto
next
  case (fatal u lg)
  then show ?thesis
    using assms(5) closed_site_scr [OF assms(2), of u] by auto
qed (use assms in auto)

lemma wstep_act:
  assumes "wstep scr (k, False) st p = (st', p', out)" and "p' \<noteq> Fatal"
  shows "activeWorkers st' + act p = activeWorkers st + act p'"
  using assms(1)
  by (cases rule: wstep_cases) (use assms(2) in auto)

lemma todo_new:
  assumes "finite P" and "u \<in> P" and "u \<notin> set (visitedHREFs st)"
  shows "todo scr P (st\<lparr>visitedHREFs := visitedHREFs st @ [u]\<rparr>) + work scr (AtScrape u) =
     todo scr P st"
proof -
  have "P - set (visitedHREFs st @ [u]) = (P - set (visitedHREFs st)) - {u}"
    by auto
  moreover have "u \<in> P - set (visitedHREFs st)" and "finite (P - set (visitedHREFs st))"
    using assms by auto
  ultimately show ?thesis
    unfolding todo_def by (simp add: sum.remove [where x = u])
qed

lemma wstep_rank:
  assumes "wstep scr (k, False) st p = (st', p', out)"
    and "closed_site scr P" and "finite P" and "held_in P p"
  shows "todo scr P st' + work scr p' < todo scr P st + work scr p \<or>
     visitedHREFs st' = visitedHREFs st \<and> crawlQ st' = crawlQ st \<and> work scr p' = work scr p \<and>
       ctl (crawlQ st = []) p' < ctl (crawlQ st = []) p \<or>
     st' = st \<and> work scr p' = work scr p \<and> ctl (crawlQ st = []) p' = ctl (crawlQ st = []) p \<and>
       (crawlQ st = [] \<and> activeWorkers st = 0 \<longrightarrow> spin p' \<le> spin p) \<and>
       (eager st p \<longrightarrow> crawlQ st = [] \<and> activeWorkers st = 0 \<and> spin p' < spin p)"
  using assms(1)
proof (cases rule: wstep_cases)
  case (pop u)
  then have "0 < length (crawlQ st)"
    by (auto simp: length_pos_if_in_set)
  then have "length (remove1 u (crawlQ st)) < length (crawlQ st)"
    using pop by (simp add: length_remove1)
  then show ?thesis
    using pop by (simp add: todo_def)
next
  case (new u)
  then show ?thesis
    using todo_new [OF assms(3), of u st scr] assms(4) by simp
next
  case (scraped u lg hs imgs)
  then show ?thesis
    by (simp add: links_def images_def)
next
  case (fatal u lg)
  then show ?thesis
    using assms(4) closed_site_scr [OF assms(2), of u] by auto
next
  case final
  then show ?thesis
    using assms(4) by (auto simp: eager_def)
qed (auto simp: todo_def ctl_def eager_def)

section \<open>One step of the pool\<close>

lemma sum_list_map_update:
  fixes f :: "'a \<Rightarrow> 'b::comm_monoid_add"
  shows "i < length xs \<Longrightarrow> sum_list (map f (xs[i := y])) + f (xs ! i) = sum_list (map f xs) + f y"
proof (induction xs arbitrary: i)
  case Nil
  then show ?case by simp
next
  case (Cons x xs)
  show ?case
  proof (cases i)
    case 0
    then show ?thesis by (simp add: add.commute add.left_commute)
  next
    case (Suc j)
    then have "j < length xs" using Cons.prems by simp
    from Cons.IH [OF this] show ?thesis
      using Suc by (simp add: add.assoc)
  qed
qed

lemma sum_list_map_zero:
  fixes f :: "'a \<Rightarrow> 'b::comm_monoid_add"
  shows "(\<And>x. x \<in> set xs \<Longrightarrow> f x = 0) \<Longrightarrow> sum_list (map f xs) = 0"
  by (induction xs) simp_all

lemma sound_not_halted: "sound P s \<Longrightarrow> \<not> halted s"
  by (auto simp: sound_def halted_def)

lemma sound_held: "sound P s \<Longrightarrow> i < length (workers s) \<Longrightarrow> held_in P (workers s ! i)"
  by (simp add: sound_def)

text \<open>A step of the pool is a step of the scheduled worker, or nothing.\<close>

lemma gstep_nofault_cases:
  assumes "sound P s"
  obtains (idle) "\<not> i < length (workers s)" "gstep scr (i, k, False) s = s"
  | (moved) st' p' out where "i < length (workers s)"
      "wstep scr (k, False) (shared s) (workers s ! i) = (st', p', out)"
      "shared (gstep scr (i, k, False) s) = st'"
      "workers (gstep scr (i, k, False) s) = (workers s)[i := p']"
proof (cases "i < length (workers s)")
  case False
  then show ?thesis
    using idle gstep_idle [of i s scr "(k, False)"] by blast
next
  case True
  obtain st' p' out where w: "wstep scr (k, False) (shared s) (workers s ! i) = (st', p', out)"
    by (metis prod_cases3)
  have "gstep scr (i, k, False) s =
      \<lparr>shared = st', workers = (workers s)[i := p'], effects = effects s @ out\<rparr>"
    using gstep_worker [OF True sound_not_halted [OF assms] w] .
  then show ?thesis
    using moved [OF True w] by simp
qed

lemma gstep_sound:
  assumes "sound P s" and "closed_site scr P"
  shows "sound P (gstep scr (i, k, False) s)"
  using assms(1)
proof (cases rule: gstep_nofault_cases [of P s i scr k])
  case idle
  then show ?thesis using assms(1) by simp
next
  case (moved st' p' out)
  have h: "set (crawlQ st') \<subseteq> P \<and> set (visitedHREFs st') \<subseteq> P \<and> held_in P p'"
    using wstep_held [OF moved(2) assms(2)] assms(1) sound_held [OF assms(1) moved(1)]
    by (simp add: sound_def)
  have "\<forall>p\<in>set ((workers s)[i := p']). held_in P p"
    using h assms(1) set_update_subset_insert [of "workers s" i p'] by (auto simp: sound_def)
  then show ?thesis
    using h moved(3,4) by (simp add: sound_def)
qed

lemma gstep_counted:
  assumes "sound P s" and "closed_site scr P" and "counted s"
  shows "counted (gstep scr (i, k, False) s)"
  using assms(1)
proof (cases rule: gstep_nofault_cases [of P s i scr k])
  case idle
  then show ?thesis using assms(3) by simp
next
  case (moved st' p' out)
  have "held_in P p'"
    using wstep_held [OF moved(2) assms(2)] assms(1) sound_held [OF assms(1) moved(1)]
    by (simp add: sound_def)
  then have "p' \<noteq> Fatal" by auto
  from wstep_act [OF moved(2) this] sum_list_map_update [OF moved(1), of act p']
  show ?thesis
    using assms(3) moved(3,4) by (simp add: counted_def)
qed

lemma todo_cong:
  "visitedHREFs st' = visitedHREFs st \<Longrightarrow> crawlQ st' = crawlQ st \<Longrightarrow> todo scr P st' = todo scr P st"
  by (simp add: todo_def)

lemma lower_iff:
  "((a, b, c), (a', b', c')) \<in> lower \<longleftrightarrow> a < a' \<or> a = a' \<and> (b < b' \<or> b = b' \<and> c < c')"
  by (simp add: lower_def)

lemma wf_lower: "wf lower"
  by (simp add: lower_def wf_lex_prod)

lemma gstep_rank:
  assumes "sound P s" and "closed_site scr P" and "finite P"
  shows "(rank scr P (gstep scr (i, k, False) s), rank scr P s) \<in> lower \<or>
     rank scr P (gstep scr (i, k, False) s) = rank scr P s \<and>
     crawlQ (shared (gstep scr (i, k, False) s)) = crawlQ (shared s) \<and>
     activeWorkers (shared (gstep scr (i, k, False) s)) = activeWorkers (shared s) \<and>
     \<not> (i < length (workers s) \<and> eager (shared s) (workers s ! i))"
  using assms(1)
proof (cases rule: gstep_nofault_cases [of P s i scr k])
  case idle
  then show ?thesis by simp
next
  case (moved st' p' out)
  let ?s' = "gstep scr (i, k, False) s"
  let ?p = "workers s ! i"
  note w = sum_list_map_update [OF moved(1), of "work scr" p']
  note c = sum_list_map_update [OF moved(1), of "ctl (crawlQ (shared s) = [])" p']
  note z = sum_list_map_update [OF moved(1), of spin p']
  consider
    (work) "todo scr P st' + work scr p' < todo scr P (shared s) + work scr ?p"
  | (ctl) "visitedHREFs st' = visitedHREFs (shared s)" "crawlQ st' = crawlQ (shared s)"
      "work scr p' = work scr ?p"
      "ctl (crawlQ (shared s) = []) p' < ctl (crawlQ (shared s) = []) ?p"
  | (spin) "st' = shared s" "work scr p' = work scr ?p"
      "ctl (crawlQ (shared s) = []) p' = ctl (crawlQ (shared s) = []) ?p"
      "crawlQ (shared s) = [] \<and> activeWorkers (shared s) = 0 \<longrightarrow> spin p' \<le> spin ?p"
      "eager (shared s) ?p \<longrightarrow>
         crawlQ (shared s) = [] \<and> activeWorkers (shared s) = 0 \<and> spin p' < spin ?p"
    using wstep_rank [OF moved(2) assms(2,3) sound_held [OF assms(1) moved(1)]] by blast
  then show ?thesis
  proof cases
    case work
    then have "Phi scr P ?s' < Phi scr P s"
      using w moved(3,4) by (simp add: Phi_def)
    then show ?thesis
      by (simp add: rank_def lower_iff)
  next
    case ctl
    have "Phi scr P ?s' = Phi scr P s"
      using w ctl(3) moved(3,4) todo_cong [OF ctl(1,2), of scr P] by (simp add: Phi_def)
    moreover have "Psi ?s' < Psi s"
      using c ctl(2,4) moved(3,4) by (simp add: Psi_def)
    ultimately show ?thesis
      by (simp add: rank_def lower_iff)
  next
    case spin
    have "Phi scr P ?s' = Phi scr P s"
      using w spin(1,2) moved(3,4) by (simp add: Phi_def)
    moreover have "Psi ?s' = Psi s"
      using c spin(1,3) moved(3,4) by (simp add: Psi_def)
    moreover have "Theta ?s' < Theta s \<or> Theta ?s' = Theta s \<and> \<not> eager (shared s) ?p"
      using z spin(1,4,5) moved(3,4) by (auto simp: Theta_def)
    ultimately show ?thesis
      using spin(1) moved(3) by (auto simp: rank_def lower_iff)
  qed
qed

lemma gstep_eager_rank:
  assumes "sound P s" and "closed_site scr P" and "finite P"
    and "i < length (workers s)" and "eager (shared s) (workers s ! i)"
  shows "(rank scr P (gstep scr (i, k, False) s), rank scr P s) \<in> lower"
  using gstep_rank [OF assms(1,2,3), of i k] assms(4,5) by blast

lemma gstep_eager_stays:
  assumes "sound P s" and "closed_site scr P" and "finite P"
    and "j < length (workers s)" and "eager (shared s) (workers s ! j)" and "i \<noteq> j"
  shows "(rank scr P (gstep scr (i, k, False) s), rank scr P s) \<in> lower \<or>
     rank scr P (gstep scr (i, k, False) s) = rank scr P s \<and>
     eager (shared (gstep scr (i, k, False) s)) (workers (gstep scr (i, k, False) s) ! j)"
proof -
  have "workers (gstep scr (i, k, False) s) ! j = workers s ! j"
    using assms(6) by (auto simp: gstep_def split: prod.splits)
  then show ?thesis
    using gstep_rank [OF assms(1,2,3), of i k] assms(5) by (auto simp: eager_def)
qed

lemma exists_eager:
  assumes "sound P s" and "counted s" and "\<not> list_all (\<lambda>p. p = Terminated) (workers s)"
  shows "\<exists>j<length (workers s). eager (shared s) (workers s ! j)"
proof -
  obtain j where j: "j < length (workers s)" "workers s ! j \<noteq> Terminated"
    using assms(3) by (auto simp: list_all_length)
  show ?thesis
  proof (cases "\<exists>i<length (workers s). busy (workers s ! i) \<or> workers s ! i = AtINCR \<or>
      workers s ! i = AtSPOP \<or> workers s ! i = AtDECR")
    case True
    then obtain i where "i < length (workers s)"
      "busy (workers s ! i) \<or> workers s ! i = AtINCR \<or> workers s ! i = AtSPOP \<or>
       workers s ! i = AtDECR"
      by blast
    then have "eager (shared s) (workers s ! i)"
      by (auto simp: eager_def)
    then show ?thesis using \<open>i < length (workers s)\<close> by blast
  next
    case False
    from False have F: "\<not> busy (workers s ! i) \<and> workers s ! i \<noteq> AtINCR \<and>
        workers s ! i \<noteq> AtSPOP \<and> workers s ! i \<noteq> AtDECR" if "i < length (workers s)" for i
      using that by blast
    have rest: "spinning p \<or> p = Terminated" if mem: "p \<in> set (workers s)" for p
    proof -
      obtain i where i: "i < length (workers s)" "p = workers s ! i"
        using mem by (metis in_set_conv_nth)
      have h: "held_in P p"
        using sound_held [OF assms(1) i(1)] i(2) by simp
      have n: "\<not> busy p \<and> p \<noteq> AtINCR \<and> p \<noteq> AtSPOP \<and> p \<noteq> AtDECR"
        using F [OF i(1)] i(2) by simp
      show ?thesis
        using h n by (cases p) simp_all
    qed
    have "act p = 0" if "p \<in> set (workers s)" for p
      using rest [OF that] by (cases p) auto
    then have "activeWorkers (shared s) = 0"
      using assms(2) sum_list_map_zero [of "workers s" act] by (simp add: counted_def)
    moreover have "spinning (workers s ! j)"
      using rest [of "workers s ! j"] j by auto
    ultimately have "eager (shared s) (workers s ! j)"
      using j(2) by (auto simp: eager_def)
    then show ?thesis using j(1) by blast
  qed
qed

section \<open>Runs without failures\<close>

lemma fault_free_sched:
  "fault_free sched \<Longrightarrow> sched t = (fst (sched t), fst (snd (sched t)), False)"
  by (cases "sched t") (auto simp: fault_free_def dest: spec [of _ t])

lemma run_Suc_nofault:
  "fault_free sched \<Longrightarrow>
   run scr sched s (Suc t) = gstep scr (fst (sched t), fst (snd (sched t)), False) (run scr sched s t)"
  using fault_free_sched [of sched t] by simp

lemma run_sound:
  assumes "sound P s" and "closed_site scr P" and "fault_free sched"
  shows "sound P (run scr sched s t)"
proof (induction t)
  case 0
  show ?case using assms(1) by simp
next
  case (Suc t)
  show ?case
    unfolding run_Suc_nofault [OF assms(3)] by (rule gstep_sound [OF Suc assms(2)])
qed

lemma run_counted:
  assumes "sound P s" and "closed_site scr P" and "fault_free sched" and "counted s"
  shows "counted (run scr sched s t)"
proof (induction t)
  case 0
  show ?case using assms(4) by simp
next
  case (Suc t)
  show ?case
    unfolding run_Suc_nofault [OF assms(3)]
    by (rule gstep_counted [OF run_sound [OF assms(1,2,3)] assms(2) Suc])
qed

text \<open>An eager worker whose turn comes lowers the rank, unless the rank fell before.\<close>

lemma eager_turn:
  assumes "sound P s" and "closed_site scr P" and "finite P" and "fault_free sched"
    and "j < length (workers s)" and "fst (sched t') = j"
  shows "t \<le> t' \<Longrightarrow> eager (shared (run scr sched s t)) (workers (run scr sched s t) ! j) \<Longrightarrow>
    \<exists>u>t. (rank scr P (run scr sched s u), rank scr P (run scr sched s t)) \<in> lower"
proof (induction "t' - t" arbitrary: t)
  case 0
  let ?s = "run scr sched s t"
  have snd: "sound P ?s"
    by (rule run_sound [OF assms(1,2,4)])
  have j: "j < length (workers ?s)"
    using assms(5) by simp
  have "fst (sched t) = j"
    using assms(6) 0 by simp
  then have "(rank scr P (run scr sched s (Suc t)), rank scr P ?s) \<in> lower"
    unfolding run_Suc_nofault [OF assms(4)]
    using gstep_eager_rank [OF snd assms(2,3) j "0.prems"(2)] by simp
  then show ?case by blast
next
  case (Suc d)
  let ?s = "run scr sched s t"
  have snd: "sound P ?s"
    by (rule run_sound [OF assms(1,2,4)])
  have j: "j < length (workers ?s)"
    using assms(5) by simp
  show ?case
  proof (cases "fst (sched t) = j")
    case True
    then have "(rank scr P (run scr sched s (Suc t)), rank scr P ?s) \<in> lower"
      unfolding run_Suc_nofault [OF assms(4)]
      using gstep_eager_rank [OF snd assms(2,3) j Suc.prems(2)] by simp
    then show ?thesis by blast
  next
    case False
    from gstep_eager_stays [OF snd assms(2,3) j Suc.prems(2) False, of "fst (snd (sched t))"]
    consider "(rank scr P (run scr sched s (Suc t)), rank scr P ?s) \<in> lower"
      | "rank scr P (run scr sched s (Suc t)) = rank scr P ?s"
        "eager (shared (run scr sched s (Suc t))) (workers (run scr sched s (Suc t)) ! j)"
      unfolding run_Suc_nofault [OF assms(4)] by blast
    then show ?thesis
    proof cases
      case 1
      then show ?thesis by blast
    next
      case 2
      have "d = t' - Suc t" and "Suc t \<le> t'"
        using Suc.hyps(2) by simp_all
      from Suc.hyps(1) [OF this 2(2)] obtain u where
        "Suc t < u" "(rank scr P (run scr sched s u), rank scr P (run scr sched s (Suc t))) \<in> lower"
        by blast
      then have "t < u \<and> (rank scr P (run scr sched s u), rank scr P ?s) \<in> lower"
        using 2(1) by simp
      then show ?thesis by blast
    qed
  qed
qed

lemma eventually_terminated:
  assumes "sound P s" and "closed_site scr P" and "finite P" and "fault_free sched"
    and "counted s" and "fair (length (workers s)) sched"
  shows "\<exists>T\<ge>t. list_all (\<lambda>p. p = Terminated) (workers (run scr sched s T))"
proof (induction "rank scr P (run scr sched s t)" arbitrary: t rule: wf_induct_rule [OF wf_lower])
  case 1
  let ?s = "run scr sched s t"
  show ?case
  proof (cases "list_all (\<lambda>p. p = Terminated) (workers ?s)")
    case True
    then show ?thesis by blast
  next
    case False
    obtain j where j: "j < length (workers s)" "eager (shared ?s) (workers ?s ! j)"
      using exists_eager [OF run_sound [OF assms(1,2,4)] run_counted [OF assms(1,2,4,5)] False]
      by auto
    obtain t' where t': "t \<le> t'" "fst (sched t') = j"
      using assms(6) j(1) by (auto simp: fair_def)
    obtain u where u: "t < u" "(rank scr P (run scr sched s u), rank scr P ?s) \<in> lower"
      using eager_turn [OF assms(1,2,3,4) j(1) t'(2) t'(1) j(2)] by blast
    obtain T where "u \<le> T" "list_all (\<lambda>p. p = Terminated) (workers (run scr sched s T))"
      using "1.hyps" [OF u(2)] by blast
    then show ?thesis
      using u(1) by (intro exI [of _ T]) simp
  qed
qed

section \<open>What the crawl has covered\<close>

lemma wstep_known:
  assumes "wstep scr (k, False) st p = (st', p', out)"
  shows "set (crawlQ st) \<union> holds p \<subseteq> set (crawlQ st') \<union> set (visitedHREFs st') \<union> holds p' \<and>
    set (visitedHREFs st) \<subseteq> set (visitedHREFs st') \<and>
    (\<forall>u. p = AtScrape u \<longrightarrow> set (links scr u) \<subseteq> holds p') \<and>
    (\<forall>u. u \<in> set (visitedHREFs st') \<longrightarrow> u \<notin> set (visitedHREFs st) \<longrightarrow> p' = AtScrape u)"
  using assms
proof (cases rule: wstep_cases)
  case (pop u)
  have "x \<in> set (remove1 u (crawlQ st))" if "x \<in> set (crawlQ st)" "x \<noteq> u" for x
    using that by simp
  then show ?thesis
    using pop by auto
qed (auto simp: links_def)

lemma wstep_staffed:
  assumes "wstep scr (k, False) st p = (st', p', out)" and "p' \<noteq> Fatal"
  shows "crawling p' \<or>
    crawlQ st' = crawlQ st \<and> p \<noteq> AtINCR \<and> (crawling p \<longrightarrow> crawlQ st = [])"
  using assms(1)
  by (cases rule: wstep_cases) (use assms(2) in \<open>auto simp: crawling_def\<close>)

lemma in_set_update_cases:
  assumes "i < length xs" and "x \<in> set xs"
  shows "x = xs ! i \<or> x \<in> set (xs[i := y])"
proof -
  obtain j where j: "j < length xs" "x = xs ! j"
    using assms(2) by (metis in_set_conv_nth)
  show ?thesis
  proof (cases "j = i")
    case True
    then show ?thesis using j by simp
  next
    case False
    then have "xs[i := y] ! j = x"
      using j by simp
    then show ?thesis
      using j(1) by (metis length_list_update nth_mem)
  qed
qed

lemma known_moved:
  assumes "i < length (workers s)"
    and "wstep scr (k, False) (shared s) (workers s ! i) = (st', p', out)"
    and "shared s' = st'" and "workers s' = (workers s)[i := p']"
  shows "known s \<subseteq> known s'"
proof
  fix x
  assume x: "x \<in> known s"
  note l = wstep_known [OF assms(2)]
  have new: "p' \<in> set (workers s')"
    using assms(1,4) by (simp add: set_update_memI)
  consider "x \<in> set (crawlQ (shared s)) \<union> holds (workers s ! i)"
    | "x \<in> set (visitedHREFs (shared s))"
    | p where "p \<in> set (workers s)" "x \<in> holds p" "p \<noteq> workers s ! i"
    using x by (auto simp: known_def)
  then show "x \<in> known s'"
  proof cases
    case 1
    then have "x \<in> set (crawlQ st') \<union> set (visitedHREFs st') \<union> holds p'"
      using l by blast
    then show ?thesis
      using new assms(3) by (auto simp: known_def)
  next
    case 2
    then show ?thesis
      using l assms(3) by (auto simp: known_def)
  next
    case 3
    then have "p \<in> set (workers s')"
      using in_set_update_cases [OF assms(1) 3(1), of p'] assms(4) by auto
    then show ?thesis
      using 3(2) by (auto simp: known_def)
  qed
qed

lemma gstep_expanded:
  assumes "sound P s" and "expanded scr s"
  shows "expanded scr (gstep scr (i, k, False) s) \<and> known s \<subseteq> known (gstep scr (i, k, False) s)"
  using assms(1)
proof (cases rule: gstep_nofault_cases [of P s i scr k])
  case idle
  then show ?thesis using assms(2) by simp
next
  case (moved st' p' out)
  let ?s' = "gstep scr (i, k, False) s"
  note l = wstep_known [OF moved(2)]
  note kn = known_moved [OF moved(1,2,3,4)]
  have new: "p' \<in> set (workers ?s')"
    using moved(1,4) by (simp add: set_update_memI)
  have "AtScrape u \<in> set (workers ?s') \<or> set (links scr u) \<subseteq> known ?s'"
    if u: "u \<in> set (visitedHREFs (shared ?s'))" for u
  proof (cases "u \<in> set (visitedHREFs (shared s))")
    case False
    then have "p' = AtScrape u"
      using l u moved(3) by simp
    then show ?thesis using new by simp
  next
    case True
    then consider "AtScrape u \<in> set (workers s)" | "set (links scr u) \<subseteq> known s"
      using assms(2) by (auto simp: expanded_def)
    then show ?thesis
    proof cases
      case 2
      then show ?thesis using kn by blast
    next
      case 1
      from in_set_update_cases [OF moved(1) 1, of p']
      consider "AtScrape u = workers s ! i" | "AtScrape u \<in> set (workers ?s')"
        using moved(4) by auto
      then show ?thesis
      proof cases
        case 1
        then have "set (links scr u) \<subseteq> holds p'"
          using l by simp
        then have "set (links scr u) \<subseteq> known ?s'"
          using new by (auto simp: known_def)
        then show ?thesis by simp
      next
        case 2
        then show ?thesis by simp
      qed
    qed
  qed
  then show ?thesis
    using kn by (simp add: expanded_def)
qed

lemma gstep_staffed:
  assumes "sound P s" and "closed_site scr P" and "staffed s"
  shows "staffed (gstep scr (i, k, False) s)"
  using assms(1)
proof (cases rule: gstep_nofault_cases [of P s i scr k])
  case idle
  then show ?thesis using assms(3) by simp
next
  case (moved st' p' out)
  let ?s' = "gstep scr (i, k, False) s"
  have new: "p' \<in> set (workers ?s')"
    using moved(1,4) by (simp add: set_update_memI)
  have "held_in P p'"
    using wstep_held [OF moved(2) assms(2)] assms(1) sound_held [OF assms(1) moved(1)]
    by (simp add: sound_def)
  then have "p' \<noteq> Fatal" by auto
  from wstep_staffed [OF moved(2) this]
  consider "crawling p'"
    | "crawlQ st' = crawlQ (shared s)" "workers s ! i \<noteq> AtINCR"
      "crawling (workers s ! i) \<longrightarrow> crawlQ (shared s) = []"
    by blast
  then show ?thesis
  proof cases
    case 1
    then show ?thesis
      using new by (auto simp: staffed_def)
  next
    case 2
    show ?thesis
    proof (cases "crawlQ (shared s) = []")
      case True
      then show ?thesis
        using 2(1) moved(3) by (simp add: staffed_def)
    next
      case False
      have "\<not> (\<forall>p\<in>set (workers s). p = AtINCR)"
        using 2(2) moved(1) by (metis nth_mem)
      then obtain p where p: "p \<in> set (workers s)" "crawling p"
        using assms(3) False by (auto simp: staffed_def)
      then have "p \<noteq> workers s ! i"
        using 2(3) False by auto
      then have "p \<in> set (workers ?s')"
        using in_set_update_cases [OF moved(1) p(1), of p'] moved(4) by auto
      then show ?thesis
        using p(2) by (auto simp: staffed_def)
    qed
  qed
qed

lemma run_covered:
  assumes "sound P s" and "closed_site scr P" and "fault_free sched"
    and "expanded scr s" and "staffed s" and "seed \<in> known s"
  shows "expanded scr (run scr sched s t) \<and> staffed (run scr sched s t) \<and>
    seed \<in> known (run scr sched s t)"
proof (induction t)
  case 0
  show ?case using assms(4,5,6) by simp
next
  case (Suc t)
  note snd = run_sound [OF assms(1,2,3), of t]
  show ?case
    unfolding run_Suc_nofault [OF assms(3)]
    using gstep_expanded [OF snd, of scr] gstep_staffed [OF snd assms(2)] Suc by blast
qed

section \<open>The crawl of a closed site\<close>

lemma reachable_in_site:
  assumes "closed_site scr P" and "seed \<in> P"
  shows "reachable scr seed u \<Longrightarrow> u \<in> P"
proof (induction rule: reachable.induct)
  case reachable_seed
  show ?case by (rule assms(2))
next
  case (reachable_link u hrefs imgSrcs v)
  have "links scr u = hrefs"
    using reachable_link.hyps(2) by (simp add: links_def)
  then show ?case
    using assms(1) reachable_link.IH reachable_link.hyps(3) by (auto simp: closed_site_def)
qed

lemma closed_site_reachable:
  assumes "closed_site scr P" and "seed \<in> P"
  shows "closed_site scr {u. reachable scr seed u}"
  unfolding closed_site_def
proof
  fix u
  assume "u \<in> {u. reachable scr seed u}"
  then have r: "reachable scr seed u" by simp
  then have "u \<in> P"
    by (rule reachable_in_site [OF assms])
  then obtain lg where s: "scr u = (lg, Inr (links scr u, images scr u))"
    using closed_site_scr [OF assms(1)] by blast
  then have "reachable scr seed v" if "v \<in> set (links scr u)" for v
    using reachable_link [OF r _ that, of "images scr u"] by simp
  then show "\<not> isl (snd (scr u)) \<and> set (links scr u) \<subseteq> {u. reachable scr seed u}"
    using s by auto
qed

lemma start_state:
  "shared (RunN n (Seed False seed emptyStore)) =
     \<lparr>activeWorkers = 0, crawlQ = [seed], visitedHREFs = [], imageSrcs = []\<rparr>"
  "workers (RunN n (Seed False seed emptyStore)) = replicate n AtINCR"
  by (simp_all add: RunN_def Seed_def emptyStore_def store_defs)

lemma start_sound: "seed \<in> P \<Longrightarrow> sound P (RunN n (Seed False seed emptyStore))"
  by (simp add: sound_def start_state)

lemma start_counted: "counted (RunN n (Seed False seed emptyStore))"
proof -
  have "sum_list (map act (replicate n AtINCR)) = 0"
    by (rule sum_list_map_zero) simp
  then show ?thesis
    by (simp add: counted_def start_state)
qed

lemma start_covered:
  "expanded scr (RunN n (Seed False seed emptyStore))"
  "staffed (RunN n (Seed False seed emptyStore))"
  "seed \<in> known (RunN n (Seed False seed emptyStore))"
  by (simp_all add: expanded_def staffed_def known_def start_state)

lemma all_terminated_covered:
  assumes "list_all (\<lambda>p. p = Terminated) (workers s)" and "workers s \<noteq> []"
    and "expanded scr s" and "staffed s" and "seed \<in> known s"
  shows "reachable scr seed u \<Longrightarrow> u \<in> set (visitedHREFs (shared s))"
proof -
  have t: "p = Terminated" if "p \<in> set (workers s)" for p
    using assms(1) that by (simp add: list_all_iff)
  obtain p where p: "p \<in> set (workers s)"
    using assms(2) by (cases "workers s") auto
  have "\<not> crawling p" if "p \<in> set (workers s)" for p
    using t [OF that] by (simp add: crawling_def)
  moreover have "\<not> (\<forall>p\<in>set (workers s). p = AtINCR)"
    using t [OF p] p by auto
  ultimately have "\<not> (\<exists>p\<in>set (workers s). crawling p)"
    "\<not> (\<forall>p\<in>set (workers s). p = AtINCR)"
    by blast+
  then have q: "crawlQ (shared s) = []"
    using assms(4) by (auto simp: staffed_def)
  have "holds p = {}" if "p \<in> set (workers s)" for p
    using t [OF that] by simp
  then have k: "known s = set (visitedHREFs (shared s))"
    using q by (simp add: known_def)
  have n: "AtScrape v \<notin> set (workers s)" for v
    using t by blast
  show "reachable scr seed u \<Longrightarrow> u \<in> set (visitedHREFs (shared s))"
  proof (induction rule: reachable.induct)
    case reachable_seed
    show ?case using assms(5) k by simp
  next
    case (reachable_link u hrefs imgSrcs v)
    have "links scr u = hrefs"
      using reachable_link.hyps(2) by (simp add: links_def)
    moreover have "set (links scr u) \<subseteq> known s"
      using assms(3) reachable_link.IH n by (auto simp: expanded_def)
    ultimately show ?case
      using reachable_link.hyps(3) k by auto
  qed
qed

lemma fair_round_robin: "0 < n \<Longrightarrow> fair n (round_robin n)"
proof -
  assume n: "0 < n"
  have "\<exists>t'\<ge>t. fst (round_robin n t') = i" if "i < n" for i t
  proof (intro exI conjI)
    show "t \<le> t * n + i"
      using n by (cases n) simp_all
    show "fst (round_robin n (t * n + i)) = i"
      using that by (simp add: round_robin_def)
  qed
  then show ?thesis
    by (simp add: fair_def)
qed

lemma fault_free_round_robin: "fault_free (round_robin n)"
  by (simp add: fault_free_def round_robin_def)

text \<open>
  C1. \<open>n\<close> workers, at least one, crawl from one seed a finite site that is closed:
  every page of \<open>pages\<close> is fetched and scraped without a fatal error, and its links
  stay in \<open>pages\<close>. The store starts empty but for the seed, no store command fails, and
  the schedule is fair: every worker is scheduled again and again. Then there is a time
  at which every worker has returned from \<open>Run\<close>, so that \<open>RunN\<close> returns, and the visited
  set is then exactly the set of the URLs reachable from the seed.
\<close>

theorem RunN_returns_with_all_pages_visited:
  assumes "0 < n" and "seed \<in> set pages" and "closed_site scr (set pages)"
    and "fair n sched" and "fault_free sched"
  shows "\<exists>T. RunN_returns (run scr sched (RunN n (Seed False seed emptyStore)) T) \<and>
    set (visitedHREFs (shared (run scr sched (RunN n (Seed False seed emptyStore)) T))) =
      {u. reachable scr seed u}"
proof -
  let ?s0 = "RunN n (Seed False seed emptyStore)"
  let ?R = "{u. reachable scr seed u}"
  have len: "length (workers ?s0) = n"
    by (simp add: start_state)
  have sp: "sound (set pages) ?s0"
    by (rule start_sound [OF assms(2)])
  have cr: "closed_site scr ?R"
    by (rule closed_site_reachable [OF assms(3,2)])
  have sr: "sound ?R ?s0"
    by (rule start_sound) (simp add: reachable_seed)
  obtain T where T: "list_all (\<lambda>p. p = Terminated) (workers (run scr sched ?s0 T))"
    using eventually_terminated [OF sp assms(3) _ assms(5) start_counted, of 0] assms(4) len
    by auto
  let ?s = "run scr sched ?s0 T"
  have ne: "workers ?s \<noteq> []"
    using assms(1) len by (metis length_workers_run length_greater_0_conv)
  note cov = run_covered [OF sp assms(3,5) start_covered, of T]
  have "set (visitedHREFs (shared ?s)) \<subseteq> ?R"
    using run_sound [OF sr cr assms(5), of T] by (simp add: sound_def)
  moreover have "?R \<subseteq> set (visitedHREFs (shared ?s))"
    using all_terminated_covered [OF T ne, of scr seed] cov by blast
  moreover have "RunN_returns ?s"
    using T by (simp add: RunN_returns_def returned_def list_all_iff)
  ultimately show ?thesis by blast
qed

lemma scrape_home:
  "scrape neturl example_site ''http://a.com'' =
     ([], Inr ([''http://a.com/b?x=1&y=2'', ''http://a.com/doc.pdf''],
               [''http://a.com/logo.png'', ''http://a.com'']))"
  by code_simp

lemma scrape_b:
  "scrape neturl example_site ''http://a.com/b?x=1&y=2'' =
     ([], Inr ([''http://a.com'', ''http://a.com/b?x=1&y=2''], []))"
  by code_simp

lemma scrape_pdf:
  "scrape neturl example_site ''http://a.com/doc.pdf'' =
     ([LogSkipping ''http://a.com/doc.pdf'' ''application/pdf''], Inr ([], []))"
  by code_simp

lemma example_closed: "closed_site (scrape neturl example_site) (set example_pages)"
  by (auto simp: closed_site_def example_pages_def links_def scrape_home scrape_b scrape_pdf)

text \<open>Two workers in turn on the small site: after 48 steps both have returned, and the
  three pages are the visited set.\<close>

theorem RunN_returns_with_all_pages_visited_witness:
  "0 < (2::nat) \<and> ''http://a.com'' \<in> set example_pages \<and>
   closed_site (scrape neturl example_site) (set example_pages) \<and>
   fair 2 (round_robin 2) \<and> fault_free (round_robin 2) \<and>
   run (scrape neturl example_site) (round_robin 2)
       (RunN 2 (Seed False ''http://a.com'' emptyStore)) 48 =
     \<lparr>shared = \<lparr>activeWorkers = 0, crawlQ = [],
         visitedHREFs = [''http://a.com'', ''http://a.com/b?x=1&y=2'', ''http://a.com/doc.pdf''],
         imageSrcs = [''http://a.com/logo.png'', ''http://a.com'']\<rparr>,
       workers = [Terminated, Terminated],
       effects = [Log (LogCrawling ''http://a.com''), Sleep 1, Sleep 1,
         Log (LogCrawling ''http://a.com/b?x=1&y=2''), Log (LogCrawling ''http://a.com/doc.pdf''),
         Log (LogSkipping ''http://a.com/doc.pdf'' ''application/pdf''), Sleep 1]\<rparr> \<and>
   (\<exists>T. RunN_returns (run (scrape neturl example_site) (round_robin 2)
            (RunN 2 (Seed False ''http://a.com'' emptyStore)) T) \<and>
        set (visitedHREFs (shared (run (scrape neturl example_site) (round_robin 2)
            (RunN 2 (Seed False ''http://a.com'' emptyStore)) T))) =
          {u. reachable (scrape neturl example_site) ''http://a.com'' u})"
proof -
  have n: "0 < (2::nat)"
    by simp
  have s: "''http://a.com'' \<in> set example_pages"
    by (simp add: example_pages_def)
  have f: "fair 2 (round_robin 2)"
    by (rule fair_round_robin) simp
  have r: "run (scrape neturl example_site) (round_robin 2)
       (RunN 2 (Seed False ''http://a.com'' emptyStore)) 48 =
     \<lparr>shared = \<lparr>activeWorkers = 0, crawlQ = [],
         visitedHREFs = [''http://a.com'', ''http://a.com/b?x=1&y=2'', ''http://a.com/doc.pdf''],
         imageSrcs = [''http://a.com/logo.png'', ''http://a.com'']\<rparr>,
       workers = [Terminated, Terminated],
       effects = [Log (LogCrawling ''http://a.com''), Sleep 1, Sleep 1,
         Log (LogCrawling ''http://a.com/b?x=1&y=2''), Log (LogCrawling ''http://a.com/doc.pdf''),
         Log (LogSkipping ''http://a.com/doc.pdf'' ''application/pdf''), Sleep 1]\<rparr>"
    by code_simp
  show ?thesis
    using n s example_closed f fault_free_round_robin r
      RunN_returns_with_all_pages_visited [OF n s example_closed f fault_free_round_robin]
    by blast
qed

end
